theory Spec2Isabelle
  imports Main "HOL-Library.Product_Lexorder" "HOL-Library.Sublist"
begin

section \<open>Exceptions\<close>

text \<open>
  A raised Python exception is a value: its class name and its message.  Every operation
  that can raise returns \<open>exn + 'a\<close>, with \<open>Inl\<close> for the exception.  The exceptions of
  the model are instances of \<^verbatim>\<open>Exception\<close>, the ones an \<^verbatim>\<open>except Exception\<close> clause catches.
\<close>

datatype exn = Exn (exn_class: string) (exn_text: string)

section \<open>Decimal numerals\<close>

definition digit :: "nat \<Rightarrow> char" where
  "digit n = ''0123456789'' ! (n mod 10)"

text \<open>\<^verbatim>\<open>str(n)\<close> for a non-negative integer.\<close>

fun str_nat :: "nat \<Rightarrow> string" where
  "str_nat n = (if n < 10 then [digit n] else str_nat (n div 10) @ [digit n])"

declare str_nat.simps [simp del]

section \<open>Naive datetimes\<close>

text \<open>
  \<^verbatim>\<open>datetime.datetime\<close> without time zone (\<^verbatim>\<open>tzinfo\<close> is \<^verbatim>\<open>None\<close>, as for the constants
  of the script): seven non-negative integer fields, compared field by field from the year
  down to the microsecond.  Time-zone-aware values are outside this type: the planner
  compares the naive value it builds with its \<^verbatim>\<open>end\<close>, which raises \<^verbatim>\<open>TypeError\<close> when
  \<^verbatim>\<open>end\<close> is aware, so everything below is about naive datetimes only.
\<close>

record datetime =
  year :: nat
  month :: nat
  day :: nat
  hour :: nat
  minute :: nat
  second :: nat
  microsecond :: nat

definition dt_key :: "datetime \<Rightarrow> nat \<times> nat \<times> nat \<times> nat \<times> nat \<times> nat \<times> nat" where
  "dt_key d = (year d, month d, day d, hour d, minute d, second d, microsecond d)"

definition dt_lt :: "datetime \<Rightarrow> datetime \<Rightarrow> bool" where
  "dt_lt a b = (dt_key a < dt_key b)"

definition dt_le :: "datetime \<Rightarrow> datetime \<Rightarrow> bool" where
  "dt_le a b = (dt_key a \<le> dt_key b)"

definition is_leap :: "nat \<Rightarrow> bool" where
  "is_leap y = (y mod 4 = 0 \<and> (y mod 100 \<noteq> 0 \<or> y mod 400 = 0))"

definition days_in_month :: "nat \<Rightarrow> nat \<Rightarrow> nat" where
  "days_in_month y m =
     (if m = 2 then (if is_leap y then 29 else 28)
      else if m \<in> {4, 6, 9, 11} then 30 else 31)"

definition MINYEAR :: nat where "MINYEAR = 1"
definition MAXYEAR :: nat where "MAXYEAR = 9999"

text \<open>The values a Python program can hold in a \<^verbatim>\<open>datetime\<close>.\<close>

definition valid_datetime :: "datetime \<Rightarrow> bool" where
  "valid_datetime d =
     (MINYEAR \<le> year d \<and> year d \<le> MAXYEAR \<and> 1 \<le> month d \<and> month d \<le> 12 \<and>
      1 \<le> day d \<and> day d \<le> days_in_month (year d) (month d) \<and>
      hour d < 24 \<and> minute d < 60 \<and> second d < 60 \<and> microsecond d < 1000000)"

text \<open>
  The constructor call \<^verbatim>\<open>datetime(year, month, day, hour)\<close>: the remaining fields are 0,
  and a field out of range raises \<^verbatim>\<open>ValueError\<close>; the message names the year.
\<close>

definition mk_datetime :: "nat \<Rightarrow> nat \<Rightarrow> nat \<Rightarrow> nat \<Rightarrow> exn + datetime" where
  "mk_datetime y m d h =
     (if \<not> (MINYEAR \<le> y \<and> y \<le> MAXYEAR) then Inl (Exn ''ValueError'' (''year '' @ str_nat y @ '' is out of range''))
      else if \<not> (1 \<le> m \<and> m \<le> 12) then Inl (Exn ''ValueError'' ''month must be in 1..12'')
      else if \<not> (1 \<le> d \<and> d \<le> days_in_month y m) then
        Inl (Exn ''ValueError'' ''day is out of range for month'')
      else if \<not> h < 24 then Inl (Exn ''ValueError'' ''hour must be in 0..23'')
      else Inr \<lparr>year = y, month = m, day = d, hour = h, minute = 0, second = 0,
                microsecond = 0\<rparr>)"

section \<open>The chunk planner\<close>

text \<open>
  \<^verbatim>\<open>generate_chunks(start, end)\<close> of the Copernicus downloader.  The generator is a pure
  loop, so its run is the list of the pairs it yields together with the exception that
  ends it, if one does: the consumer sees every yielded pair before the exception.
\<close>

function generate_chunks :: "datetime \<Rightarrow> datetime \<Rightarrow> (datetime \<times> datetime) list \<times> exn option"
  where
  "generate_chunks current fin =
     (if dt_lt current fin then
        (case mk_datetime (year current + month current div 12) (month current mod 12 + 1)
                (min (day current) 28) (hour current) of
           Inl e \<Rightarrow> ([], Some e)
         | Inr nxt \<Rightarrow>
             (let next_chunk = (if dt_lt fin nxt then fin else nxt);
                  rest = generate_chunks next_chunk fin
              in ((current, next_chunk) # fst rest, snd rest)))
      else ([], None))"
  by pat_completeness auto
termination
proof (relation "measure (\<lambda>(current, fin).
          if dt_lt current fin then Suc (120000 - (year current * 12 + month current)) else 0)")
  show "wf (measure (\<lambda>(current, fin).
          if dt_lt current fin then Suc (120000 - (year current * 12 + month current)) else 0))"
    by simp
next
  fix current fin :: datetime and nxt next_chunk
  assume lt: "dt_lt current fin"
    and mk: "mk_datetime (year current + month current div 12) (month current mod 12 + 1)
               (min (day current) 28) (hour current) = Inr nxt"
    and nc: "next_chunk = (if dt_lt fin nxt then fin else nxt)"
  from mk have yn: "year nxt = year current + month current div 12"
    and mn: "month nxt = month current mod 12 + 1"
    and ymax: "year current + month current div 12 \<le> 9999"
    by (auto simp: mk_datetime_def MAXYEAR_def split: if_splits)
  have idx: "year nxt * 12 + month nxt = Suc (year current * 12 + month current)"
    using yn mn by (simp add: algebra_simps)
  have le: "year nxt * 12 + month nxt \<le> 120000"
    using yn mn ymax by simp
  show "((next_chunk, fin), (current, fin)) \<in> measure (\<lambda>(current, fin).
          if dt_lt current fin then Suc (120000 - (year current * 12 + month current)) else 0)"
  proof (cases "dt_lt fin nxt")
    case True
    with nc lt show ?thesis by (simp add: dt_lt_def)
  next
    case False
    with nc lt idx le show ?thesis by auto
  qed
qed


declare generate_chunks.simps [simp del]

section \<open>Strings\<close>

text \<open>The string operations of the two scripts, on \<open>string\<close> as a list of characters.\<close>

text \<open>
  \<^verbatim>\<open>strftime('%Y%m%d')\<close>: month and day on two digits, zero-filled; the year as the C
  library prints it, which on Linux is without padding (\<^verbatim>\<open>9991201\<close> for 1 December 999).
\<close>

definition strftime_Ymd :: "datetime \<Rightarrow> string" where
  "strftime_Ymd d =
     str_nat (year d) @ [digit (month d div 10), digit (month d), digit (day d div 10), digit (day d)]"

text \<open>\<^verbatim>\<open>s.split(sep)\<close> with a one-character separator: never the empty list.\<close>

fun split_on :: "char \<Rightarrow> string \<Rightarrow> string list" where
  "split_on sep [] = [[]]"
| "split_on sep (c # cs) =
     (if c = sep then [] # split_on sep cs
      else (case split_on sep cs of [] \<Rightarrow> [[c]] | p # ps \<Rightarrow> (c # p) # ps))"

definition endswith :: "string \<Rightarrow> string \<Rightarrow> bool" where
  "endswith s suf = (length suf \<le> length s \<and> drop (length s - length suf) s = suf)"

text \<open>
  \<^verbatim>\<open>s.replace(old, new)\<close>: every occurrence of \<open>old\<close>, left to right, without overlap; an
  empty \<open>old\<close> matches before every character and at the end.
\<close>

function str_replace :: "string \<Rightarrow> string \<Rightarrow> string \<Rightarrow> string" where
  "str_replace old new s =
     (if old = [] then new @ concat (map (\<lambda>c. c # new) s)
      else if s = [] then []
      else if prefix old s then new @ str_replace old new (drop (length old) s)
      else hd s # str_replace old new (tl s))"
  by pat_completeness auto
termination
  by (relation "measure (\<lambda>(old, new, s). length s)") (auto simp: neq_Nil_conv)

declare str_replace.simps [simp del]

text \<open>\<^verbatim>\<open>os.path.join(a, b)\<close> for two components, on POSIX.\<close>

definition path_join :: "string \<Rightarrow> string \<Rightarrow> string" where
  "path_join a b =
     (if b \<noteq> [] \<and> hd b = CHR ''/'' then b
      else if a = [] \<or> last a = CHR ''/'' then a @ b
      else a @ ''/'' @ b)"

text \<open>\<^verbatim>\<open>xs[i]\<close> for \<open>i \<ge> 0\<close>: \<^verbatim>\<open>IndexError\<close> out of range.\<close>

definition index :: "'a list \<Rightarrow> nat \<Rightarrow> exn + 'a" where
  "index xs i =
     (if i < length xs then Inr (xs ! i) else Inl (Exn ''IndexError'' ''list index out of range''))"

section \<open>The world outside the interpreter\<close>

text \<open>
  The remote services and the local file system answer every call of the scripts.  What
  they answer is not in the source, so it is a parameter: \<open>replies\<close> gives the answer to
  the n-th external call, \<open>clock\<close> counts the calls made so far, and \<open>calls\<close> keeps
  them with their answers.  A call either completes, or raises without effect, or raises
  after part of its effect on a local file has happened.
\<close>

datatype reply = Done | Failed exn | FailedPartway exn

datatype op = OpenDataset | DsChunk | ToNetcdf | UploadFile | OsRemove | WriteLedger
  | ListObjects | GetObject | ReadBody | XrOpenDataset | Sel

record system =
  replies :: "nat \<Rightarrow> reply"
  clock :: nat
  calls :: "(op \<times> string \<times> reply) list"
  disk :: "string set"
  bucket :: "string set"
  source :: "string list"

text \<open>
  \<open>disk\<close> holds the paths of the local data files, \<open>bucket\<close> the keys stored in the
  destination bucket, \<open>source\<close> the keys of the NOAA source bucket in listing order.
\<close>

definition failure :: "reply \<Rightarrow> exn option" where
  "failure r = (case r of Done \<Rightarrow> None | Failed e \<Rightarrow> Some e | FailedPartway e \<Rightarrow> Some e)"

definition partway :: "reply \<Rightarrow> bool" where
  "partway r = (case r of FailedPartway e \<Rightarrow> True | _ \<Rightarrow> False)"

definition call :: "op \<Rightarrow> string \<Rightarrow> system \<Rightarrow> reply \<times> system" where
  "call f arg s =
     (let r = replies s (clock s)
      in (r, s\<lparr>clock := Suc (clock s), calls := calls s @ [(f, arg, r)]\<rparr>))"

text \<open>What a script prints, and its sleeps, in order.\<close>

datatype event =
    AttemptFailed int exn
  | RetryingIn nat
  | Sleep nat
  | SkippingChunk string
  | ProcessingChunk "datetime \<times> datetime"
  | SavingChunk string
  | Uploading string string
  | ChunkCompleted string
  | AllChunksDone
  | FoundFiles nat
  | SkippingFile string
  | ProcessingFile string
  | CompletedFile string
  | ErrorProcessing string exn

text \<open>A ledger file: absent, holding a JSON array, or cut short by a write that failed.\<close>

datatype 'a json_file = Missing | Content 'a | Garbled

text \<open>The part of a running script both downloaders share.\<close>

record process =
  sys :: system
  out :: "event list"

definition printed :: "event \<Rightarrow> 'a process_scheme \<Rightarrow> 'a process_scheme" where
  "printed e w = w\<lparr>out := out w @ [e]\<rparr>"

text \<open>Where an exception that leaves a loop body was raised, as a traceback tells.\<close>

datatype stage = Load | Plan | Fetch | Transform | Materialize | Upload | Cleanup | Commit

section \<open>The retry helper\<close>

text \<open>
  \<^verbatim>\<open>retry(func, max_attempts, delay)\<close>: the \<^verbatim>\<open>for\<close> loop over
  \<^verbatim>\<open>range(1, max_attempts + 1)\<close>.  The operation acts on a state of its own; the
  helper prints and sleeps.  The result is the value returned (\<open>None\<close> when the loop body
  never ran) or the exception re-raised by the bare \<^verbatim>\<open>raise\<close>.
\<close>

fun retry_for :: "('s \<Rightarrow> (exn + 'a) \<times> 's) \<Rightarrow> int \<Rightarrow> nat \<Rightarrow> int list \<Rightarrow> 's \<times> event list
    \<Rightarrow> (exn + 'a option) \<times> 's \<times> event list" where
  "retry_for func max_attempts delay [] (s, log) = (Inr None, s, log)"
| "retry_for func max_attempts delay (attempt # rest) (s, log) =
     (case func s of
        (Inr v, s') \<Rightarrow> (Inr (Some v), s', log)
      | (Inl e, s') \<Rightarrow>
          (if attempt < max_attempts
           then retry_for func max_attempts delay rest
                  (s', log @ [AttemptFailed attempt e, RetryingIn delay, Sleep delay])
           else (Inl e, s', log @ [AttemptFailed attempt e])))"

definition retry :: "('s \<Rightarrow> (exn + 'a) \<times> 's) \<Rightarrow> int \<Rightarrow> nat \<Rightarrow> 's \<times> event list
    \<Rightarrow> (exn + 'a option) \<times> 's \<times> event list" where
  "retry func max_attempts delay st = retry_for func max_attempts delay [1..max_attempts] st"


section \<open>External operations\<close>

text \<open>
  Each library call that reaches outside the interpreter asks the world once.  The value
  of \<^verbatim>\<open>copernicusmarine.open_dataset\<close> is a lazy handle on the requested range.
\<close>

definition chunk_name :: "datetime \<times> datetime \<Rightarrow> string" where
  "chunk_name c = strftime_Ymd (fst c) @ ''_'' @ strftime_Ymd (snd c)"

definition open_dataset :: "datetime \<times> datetime \<Rightarrow> system \<Rightarrow> (exn + datetime \<times> datetime) \<times> system"
  where
  "open_dataset c s =
     (case call OpenDataset (chunk_name c) s of
        (r, s') \<Rightarrow> (case failure r of None \<Rightarrow> (Inr c, s') | Some e \<Rightarrow> (Inl e, s')))"

text \<open>
  \<^verbatim>\<open>ds.chunk({'time': 50})\<close> on the handle: it is evaluated once, as the receiver of the
  method handed to \<^verbatim>\<open>retry\<close>, so outside the retried call.
\<close>

definition ds_chunk :: "datetime \<times> datetime \<Rightarrow> system \<Rightarrow> (exn + datetime \<times> datetime) \<times> system"
  where
  "ds_chunk ds s =
     (case call DsChunk (chunk_name ds) s of
        (r, s') \<Rightarrow> (case failure r of None \<Rightarrow> (Inr ds, s') | Some e \<Rightarrow> (Inl e, s')))"

text \<open>\<^verbatim>\<open>to_netcdf(path)\<close> writes the local file; a failed write may leave a partial file.\<close>

definition to_netcdf :: "string \<Rightarrow> system \<Rightarrow> (exn + unit) \<times> system" where
  "to_netcdf path s =
     (case call ToNetcdf path s of
        (r, s') \<Rightarrow>
          (case failure r of
             None \<Rightarrow> (Inr (), s'\<lparr>disk := insert path (disk s')\<rparr>)
           | Some e \<Rightarrow> (Inl e, if partway r then s'\<lparr>disk := insert path (disk s')\<rparr> else s')))"

definition upload_file :: "string \<Rightarrow> string \<Rightarrow> system \<Rightarrow> (exn + unit) \<times> system" where
  "upload_file path key s =
     (case call UploadFile key s of
        (r, s') \<Rightarrow>
          (case failure r of
             None \<Rightarrow> (Inr (), s'\<lparr>bucket := insert key (bucket s')\<rparr>)
           | Some e \<Rightarrow> (Inl e, s')))"

definition os_remove :: "string \<Rightarrow> system \<Rightarrow> (exn + unit) \<times> system" where
  "os_remove path s =
     (if path \<notin> disk s then (Inl (Exn ''FileNotFoundError'' path), s)
      else (case call OsRemove path s of
              (r, s') \<Rightarrow>
                (case failure r of
                   None \<Rightarrow> (Inr (), s'\<lparr>disk := disk s' - {path}\<rparr>)
                 | Some e \<Rightarrow> (Inl e, s'))))"

section \<open>The Copernicus downloader\<close>

definition local_temp_dir :: string where "local_temp_dir = ''./temp_downloads''"
definition log_file_name :: string where "log_file_name = ''./download_log.json''"

record copernicus = process +
  completed_chunks :: "string list"
  log_file :: "string list json_file"

text \<open>
  \<^verbatim>\<open>save_log()\<close>: \<^verbatim>\<open>open(log_file, "w")\<close> truncates the file, then the whole list is
  dumped.  A failure of \<^verbatim>\<open>open\<close> leaves the file as it was; a failure of the dump leaves
  it cut short.
\<close>

definition save_log :: "copernicus \<Rightarrow> (exn + unit) \<times> copernicus" where
  "save_log w =
     (case call WriteLedger log_file_name (sys w) of
        (r, s') \<Rightarrow>
          (case failure r of
             None \<Rightarrow> (Inr (), w\<lparr>sys := s', log_file := Content (completed_chunks w)\<rparr>)
           | Some e \<Rightarrow>
               (Inl e, if partway r then w\<lparr>sys := s', log_file := Garbled\<rparr> else w\<lparr>sys := s'\<rparr>)))"

text \<open>The start of the script: the ledger is read into \<^verbatim>\<open>completed_chunks\<close>.\<close>

definition load_log :: "copernicus \<Rightarrow> (exn + unit) \<times> copernicus" where
  "load_log w =
     (case log_file w of
        Missing \<Rightarrow> (Inr (), w\<lparr>completed_chunks := []\<rparr>)
      | Content ids \<Rightarrow> (Inr (), w\<lparr>completed_chunks := ids\<rparr>)
      | Garbled \<Rightarrow> (Inl (Exn ''JSONDecodeError'' log_file_name), w))"

text \<open>The message of the \<^verbatim>\<open>AttributeError\<close> for a method of \<^verbatim>\<open>None\<close>.\<close>

definition no_chunk_attribute :: string where
  "no_chunk_attribute =
     [CHR 0x27] @ ''NoneType'' @ [CHR 0x27] @ '' object has no attribute ''
       @ [CHR 0x27] @ ''chunk'' @ [CHR 0x27]"

text \<open>
  The body of the download and upload loop for one chunk.  No \<^verbatim>\<open>try\<close> surrounds it: an
  exception leaves the body, and the loop, where it is raised.  \<^verbatim>\<open>retry\<close> is called with
  its defaults, three attempts and ten seconds.  The line \<^verbatim>\<open>Saving chunk ...\<close> is printed
  before \<^verbatim>\<open>ds.chunk\<close> is evaluated; were \<^verbatim>\<open>ds\<close> the \<^verbatim>\<open>None\<close> that \<^verbatim>\<open>retry\<close> returns when its
  loop never runs, that evaluation would raise \<^verbatim>\<open>AttributeError\<close>.
\<close>

definition process_chunk :: "datetime \<times> datetime \<Rightarrow> copernicus \<Rightarrow> (stage \<times> exn) option \<times> copernicus"
  where
  "process_chunk c w =
     (if chunk_name c \<in> set (completed_chunks w)
      then (None, printed (SkippingChunk (chunk_name c)) w)
      else
        (let temp_file = path_join local_temp_dir (chunk_name c @ ''.nc'');
             s3_key = str_nat (year (fst c)) @ ''/'' @ chunk_name c @ ''.nc'';
             w1 = printed (ProcessingChunk c) w
         in case retry (open_dataset c) 3 10 (sys w1, out w1) of
              (Inl e, s2, o2) \<Rightarrow> (Some (Fetch, e), w1\<lparr>sys := s2, out := o2\<rparr>)
            | (Inr handle, s2, o2) \<Rightarrow>
                (let w2 = printed (SavingChunk temp_file) (w1\<lparr>sys := s2, out := o2\<rparr>)
                 in case (case handle of
                            None \<Rightarrow> (Inl (Exn ''AttributeError'' no_chunk_attribute), s2)
                          | Some ds \<Rightarrow> ds_chunk ds s2) of
                      (Inl e, s2c) \<Rightarrow> (Some (Transform, e), w2\<lparr>sys := s2c\<rparr>)
                    | (Inr dc, s2c) \<Rightarrow>
                (case retry (to_netcdf temp_file) 3 10 (s2c, out w2) of
                      (Inl e, s3, o3) \<Rightarrow> (Some (Materialize, e), w2\<lparr>sys := s3, out := o3\<rparr>)
                    | (Inr u3, s3, o3) \<Rightarrow>
                        (let w3 = printed (Uploading temp_file s3_key) (w2\<lparr>sys := s3, out := o3\<rparr>)
                         in case retry (upload_file temp_file s3_key) 3 10 (sys w3, out w3) of
                              (Inl e, s4, o4) \<Rightarrow> (Some (Upload, e), w3\<lparr>sys := s4, out := o4\<rparr>)
                            | (Inr u4, s4, o4) \<Rightarrow>
                                (case os_remove temp_file s4 of
                                   (Inl e, s5) \<Rightarrow> (Some (Cleanup, e), w3\<lparr>sys := s5, out := o4\<rparr>)
                                 | (Inr u5, s5) \<Rightarrow>
                                     (case save_log
                                             (w3\<lparr>sys := s5, out := o4,
                                                 completed_chunks :=
                                                   completed_chunks w3 @ [chunk_name c]\<rparr>) of
                                        (Inl e, w6) \<Rightarrow> (Some (Commit, e), w6)
                                      | (Inr u6, w6) \<Rightarrow>
                                          (None, printed (ChunkCompleted (chunk_name c)) w6))))))))"

text \<open>The \<^verbatim>\<open>for\<close> loop over the chunks the generator yields.\<close>

fun chunk_loop :: "(datetime \<times> datetime) list \<Rightarrow> copernicus \<Rightarrow> (stage \<times> exn) option \<times> copernicus"
  where
  "chunk_loop [] w = (None, w)"
| "chunk_loop (c # cs) w =
     (case process_chunk c w of
        (Some x, w') \<Rightarrow> (Some x, w')
      | (None, w') \<Rightarrow> chunk_loop cs w')"

text \<open>
  The whole script on a domain: load the ledger, run the loop, print the final line.  The
  result is the exception that ended the run, if one did.
\<close>

definition copernicus_main :: "datetime \<Rightarrow> datetime \<Rightarrow> copernicus \<Rightarrow> (stage \<times> exn) option \<times> copernicus"
  where
  "copernicus_main start_date end_date w0 =
     (case load_log w0 of
        (Inl e, w) \<Rightarrow> (Some (Load, e), w)
      | (Inr u, w) \<Rightarrow>
          (case chunk_loop (fst (generate_chunks start_date end_date)) w of
             (Some x, w') \<Rightarrow> (Some x, w')
           | (None, w') \<Rightarrow>
               (case snd (generate_chunks start_date end_date) of
                  Some e \<Rightarrow> (Some (Plan, e), w')
                | None \<Rightarrow> (None, printed AllChunksDone w'))))"

section \<open>The NOAA downloader\<close>

definition source_prefix :: string where "source_prefix = ''GEFSv12/reforecast/2019/''"
definition destination_prefix :: string where "destination_prefix = ''noaa-data/2019/''"
definition local_tmp :: string where "local_tmp = ''/tmp''"
definition checkpoint_file_name :: string where "checkpoint_file_name = ''progress_checkpoint.json''"

text \<open>
  One \<^verbatim>\<open>list_objects_v2\<close> response holds at most 1000 keys (the service's page size), in
  listing order; the key \<^verbatim>\<open>Contents\<close> is absent when nothing matches.
\<close>

definition MaxKeys :: nat where "MaxKeys = 1000"

definition list_objects_v2 :: "string \<Rightarrow> system \<Rightarrow> (exn + string list option) \<times> system" where
  "list_objects_v2 pfx s =
     (case call ListObjects pfx s of
        (r, s') \<Rightarrow>
          (case failure r of
             Some e \<Rightarrow> (Inl e, s')
           | None \<Rightarrow>
               (let page = take MaxKeys (filter (prefix pfx) (source s'))
                in (Inr (if page = [] then None else Some page), s'))))"

definition get_object :: "string \<Rightarrow> system \<Rightarrow> (exn + unit) \<times> system" where
  "get_object key s =
     (case call GetObject key s of
        (r, s') \<Rightarrow> (case failure r of None \<Rightarrow> (Inr (), s') | Some e \<Rightarrow> (Inl e, s')))"

definition read_body :: "string \<Rightarrow> system \<Rightarrow> (exn + unit) \<times> system" where
  "read_body key s =
     (case call ReadBody key s of
        (r, s') \<Rightarrow> (case failure r of None \<Rightarrow> (Inr (), s') | Some e \<Rightarrow> (Inl e, s')))"

definition xr_open_dataset :: "string \<Rightarrow> system \<Rightarrow> (exn + unit) \<times> system" where
  "xr_open_dataset key s =
     (case call XrOpenDataset key s of
        (r, s') \<Rightarrow> (case failure r of None \<Rightarrow> (Inr (), s') | Some e \<Rightarrow> (Inl e, s')))"

definition sel :: "string \<Rightarrow> system \<Rightarrow> (exn + unit) \<times> system" where
  "sel key s =
     (case call Sel key s of
        (r, s') \<Rightarrow> (case failure r of None \<Rightarrow> (Inr (), s') | Some e \<Rightarrow> (Inl e, s')))"

record noaa = process +
  completed_files :: "string set"
  checkpoint_file :: "string set json_file"

text \<open>
  The checkpoint is written as \<^verbatim>\<open>list(completed_files)\<close> and read back with \<^verbatim>\<open>set(...)\<close>:
  the file's content is taken as the set.
\<close>

definition write_checkpoint :: "noaa \<Rightarrow> (exn + unit) \<times> noaa" where
  "write_checkpoint w =
     (case call WriteLedger checkpoint_file_name (sys w) of
        (r, s') \<Rightarrow>
          (case failure r of
             None \<Rightarrow> (Inr (), w\<lparr>sys := s', checkpoint_file := Content (completed_files w)\<rparr>)
           | Some e \<Rightarrow>
               (Inl e, if partway r then w\<lparr>sys := s', checkpoint_file := Garbled\<rparr>
                       else w\<lparr>sys := s'\<rparr>)))"

definition load_checkpoint :: "noaa \<Rightarrow> (exn + unit) \<times> noaa" where
  "load_checkpoint w =
     (case checkpoint_file w of
        Missing \<Rightarrow> (Inr (), w\<lparr>completed_files := {}\<rparr>)
      | Content ids \<Rightarrow> (Inr (), w\<lparr>completed_files := ids\<rparr>)
      | Garbled \<Rightarrow> (Inl (Exn ''JSONDecodeError'' checkpoint_file_name), w))"

text \<open>The suite of the \<^verbatim>\<open>try\<close> statement, after the line it prints first.\<close>

definition try_suite :: "string \<Rightarrow> string \<Rightarrow> noaa \<Rightarrow> (stage \<times> exn) option \<times> noaa" where
  "try_suite key filename w =
     (case get_object key (sys w) of
        (Inl e, s1) \<Rightarrow> (Some (Fetch, e), w\<lparr>sys := s1\<rparr>)
      | (Inr u1, s1) \<Rightarrow>
     (case read_body key s1 of
        (Inl e, s2) \<Rightarrow> (Some (Fetch, e), w\<lparr>sys := s2\<rparr>)
      | (Inr u2, s2) \<Rightarrow>
     (case xr_open_dataset key s2 of
        (Inl e, s3) \<Rightarrow> (Some (Transform, e), w\<lparr>sys := s3\<rparr>)
      | (Inr u3, s3) \<Rightarrow>
     (case sel key s3 of
        (Inl e, s4) \<Rightarrow> (Some (Transform, e), w\<lparr>sys := s4\<rparr>)
      | (Inr u4, s4) \<Rightarrow>
     (case index (split_on CHR ''/'' key) 4 of
        Inl e \<Rightarrow> (Some (Transform, e), w\<lparr>sys := s4\<rparr>)
      | Inr date_folder \<Rightarrow>
     (let netcdf_name = str_replace ''.grib2'' ''.nc'' filename;
          local_nc_path = path_join local_tmp netcdf_name;
          dest_key = destination_prefix @ date_folder @ ''/'' @ netcdf_name
      in
     (case to_netcdf local_nc_path s4 of
        (Inl e, s5) \<Rightarrow> (Some (Materialize, e), w\<lparr>sys := s5\<rparr>)
      | (Inr u5, s5) \<Rightarrow>
     (case upload_file local_nc_path dest_key s5 of
        (Inl e, s6) \<Rightarrow> (Some (Upload, e), w\<lparr>sys := s6\<rparr>)
      | (Inr u6, s6) \<Rightarrow>
     (case os_remove local_nc_path s6 of
        (Inl e, s7) \<Rightarrow> (Some (Cleanup, e), w\<lparr>sys := s7\<rparr>)
      | (Inr u7, s7) \<Rightarrow>
     (case write_checkpoint
             (w\<lparr>sys := s7, completed_files := insert filename (completed_files w)\<rparr>) of
        (Inl e, w8) \<Rightarrow> (Some (Commit, e), w8)
      | (Inr u8, w8) \<Rightarrow> (None, printed (CompletedFile filename) w8)))))))))))"

text \<open>
  The body of the loop for one key: the skip check, then the \<^verbatim>\<open>try\<close> statement, whose
  handler prints the exception and goes on.  The result tells what the handler caught.
\<close>

definition process_file :: "string \<Rightarrow> noaa \<Rightarrow> (stage \<times> exn) option \<times> noaa" where
  "process_file key w =
     (let filename = last (split_on CHR ''/'' key)
      in if filename \<in> completed_files w then (None, printed (SkippingFile filename) w)
         else (case try_suite key filename (printed (ProcessingFile filename) w) of
                 (None, w') \<Rightarrow> (None, w')
               | (Some (st, e), w') \<Rightarrow> (Some (st, e), printed (ErrorProcessing filename e) w')))"

fun file_loop :: "string list \<Rightarrow> noaa \<Rightarrow> noaa" where
  "file_loop [] w = w"
| "file_loop (key # keys) w = file_loop keys (snd (process_file key w))"

definition noaa_main :: "noaa \<Rightarrow> (stage \<times> exn) option \<times> noaa" where
  "noaa_main w0 =
     (case load_checkpoint w0 of
        (Inl e, w) \<Rightarrow> (Some (Load, e), w)
      | (Inr u, w) \<Rightarrow>
          (case list_objects_v2 source_prefix (sys w) of
             (Inl e, s) \<Rightarrow> (Some (Plan, e), w\<lparr>sys := s\<rparr>)
           | (Inr contents, s) \<Rightarrow>
               (let grib_files =
                      filter (\<lambda>key. endswith key ''.grib2'')
                        (case contents of None \<Rightarrow> [] | Some keys \<Rightarrow> keys);
                    w1 = printed (FoundFiles (length grib_files)) (w\<lparr>sys := s\<rparr>)
                in (None, file_loop grib_files w1))))"


section \<open>Vocabulary of the properties\<close>

text \<open>A datetime on the hour, as the scripts write their constants.\<close>

definition dt :: "nat \<Rightarrow> nat \<Rightarrow> nat \<Rightarrow> nat \<Rightarrow> datetime" where
  "dt y m d h = \<lparr>year = y, month = m, day = d, hour = h, minute = 0, second = 0,
     microsecond = 0\<rparr>"

text \<open>
  One calendar month after an instant, on the hour, with the day of the month capped at
  28: the granularity of the planner, in the words of the specification.
\<close>

definition add_month_capped :: "datetime \<Rightarrow> datetime" where
  "add_month_capped s =
     (if month s = 12
      then \<lparr>year = year s + 1, month = 1, day = min (day s) 28, hour = hour s,
            minute = 0, second = 0, microsecond = 0\<rparr>
      else \<lparr>year = year s, month = month s + 1, day = min (day s) 28, hour = hour s,
            minute = 0, second = 0, microsecond = 0\<rparr>)"

text \<open>
  The chunk start in December 9999 of a walk that begins at \<open>start\<close>: \<open>start\<close> itself
  when it is in that month, else that month on the day (capped at 28) and hour of \<open>start\<close>.
\<close>

definition final_chunk_start :: "datetime \<Rightarrow> datetime" where
  "final_chunk_start start =
     (if year start = 9999 \<and> month start = 12 then start
      else \<lparr>year = 9999, month = 12, day = min (day start) 28, hour = hour start,
            minute = 0, second = 0, microsecond = 0\<rparr>)"

text \<open>The instants of a half-open interval.\<close>

definition interval :: "datetime \<times> datetime \<Rightarrow> datetime set" where
  "interval c = {t. dt_le (fst c) t \<and> dt_lt t (snd c)}"

text \<open>
  A list of intervals laid end to end from \<open>a\<close> to \<open>b\<close>: the first starts at \<open>a\<close>, each
  is non-empty and ends where the next starts, the last ends at \<open>b\<close>.
\<close>

fun contiguous :: "datetime \<Rightarrow> (datetime \<times> datetime) list \<Rightarrow> datetime \<Rightarrow> bool" where
  "contiguous a [] b = (a = b)"
| "contiguous a (c # cs) b = (fst c = a \<and> dt_lt (fst c) (snd c) \<and> contiguous (snd c) cs b)"

text \<open>
  The same without the end: a list of non-empty intervals laid end to end from \<open>a\<close>, and
  the point it reaches.
\<close>

fun chained :: "datetime \<Rightarrow> (datetime \<times> datetime) list \<Rightarrow> bool" where
  "chained a [] = True"
| "chained a (c # cs) = (fst c = a \<and> dt_lt (fst c) (snd c) \<and> chained (snd c) cs)"

definition reached :: "datetime \<Rightarrow> (datetime \<times> datetime) list \<Rightarrow> datetime" where
  "reached a cs = (if cs = [] then a else snd (last cs))"

text \<open>The state an operation leaves after it has been called \<open>n\<close> times in a row.\<close>

fun after_calls :: "('s \<Rightarrow> (exn + 'a) \<times> 's) \<Rightarrow> nat \<Rightarrow> 's \<Rightarrow> 's" where
  "after_calls func 0 s = s"
| "after_calls func (Suc n) s = after_calls func n (snd (func s))"

text \<open>
  What \<^verbatim>\<open>retry\<close> prints and sleeps for \<open>k\<close> failed attempts numbered from \<open>a\<close>, each
  followed by another attempt: the failure, the announcement, the sleep.
\<close>

definition failures_then_retry :: "(nat \<Rightarrow> exn) \<Rightarrow> nat \<Rightarrow> int \<Rightarrow> nat \<Rightarrow> event list" where
  "failures_then_retry errs delay a k =
     concat (map (\<lambda>i. [AttemptFailed (a + int i) (errs i), RetryingIn delay, Sleep delay]) [0..<k])"

definition is_failure_line :: "event \<Rightarrow> bool" where
  "is_failure_line ev = (case ev of AttemptFailed n e \<Rightarrow> True | _ \<Rightarrow> False)"

definition is_sleep :: "event \<Rightarrow> bool" where
  "is_sleep ev = (case ev of Sleep d \<Rightarrow> True | _ \<Rightarrow> False)"

text \<open>An operation that fails on its first \<open>n\<close> calls and returns its call count afterwards.\<close>

definition flaky :: "nat \<Rightarrow> nat \<Rightarrow> (exn + nat) \<times> nat" where
  "flaky n s = (if s < n then Inl (Exn ''ConnectionError'' (str_nat s)) else Inr s, Suc s)"

text \<open>The lines and sleeps of the retry helper, among all events.\<close>

definition is_retry_event :: "event \<Rightarrow> bool" where
  "is_retry_event ev =
     (case ev of AttemptFailed n e \<Rightarrow> True | RetryingIn d \<Rightarrow> True | Sleep d \<Rightarrow> True | _ \<Rightarrow> False)"

text \<open>
  How the world may change over some external calls: the answers to come and the source
  bucket stay, calls of the operations \<open>F\<close> are appended to the record, files among \<open>D\<close>
  may appear on disk and keys among \<open>B\<close> in the destination bucket, nothing disappears.
\<close>

definition grows :: "op set \<Rightarrow> string set \<Rightarrow> string set \<Rightarrow> system \<Rightarrow> system \<Rightarrow> bool" where
  "grows F D B s s' =
     (replies s' = replies s \<and> source s' = source s \<and>
      (\<exists>cs. calls s' = calls s @ cs \<and> fst ` set cs \<subseteq> F) \<and>
      disk s \<subseteq> disk s' \<and> disk s' \<subseteq> disk s \<union> D \<and>
      bucket s \<subseteq> bucket s' \<and> bucket s' \<subseteq> bucket s \<union> B)"

text \<open>A world no script has touched, and the two scripts before their first run.\<close>

definition fresh_system :: "(nat \<Rightarrow> reply) \<Rightarrow> string list \<Rightarrow> system" where
  "fresh_system answers keys =
     \<lparr>replies = answers, clock = 0, calls = [], disk = {}, bucket = {}, source = keys\<rparr>"

definition fresh_copernicus :: "(nat \<Rightarrow> reply) \<Rightarrow> copernicus" where
  "fresh_copernicus answers =
     \<lparr>sys = fresh_system answers [], out = [], completed_chunks = [], log_file = Missing\<rparr>"

definition fresh_noaa :: "(nat \<Rightarrow> reply) \<Rightarrow> string list \<Rightarrow> noaa" where
  "fresh_noaa answers keys =
     \<lparr>sys = fresh_system answers keys, out = [], completed_files = {}, checkpoint_file = Missing\<rparr>"

text \<open>The names of the local file and of the destination key of a chunk, as the loop builds them.\<close>

definition temp_file :: "datetime \<times> datetime \<Rightarrow> string" where
  "temp_file c = path_join local_temp_dir (chunk_name c @ ''.nc'')"

definition s3_key :: "datetime \<times> datetime \<Rightarrow> string" where
  "s3_key c = str_nat (year (fst c)) @ ''/'' @ chunk_name c @ ''.nc''"

text \<open>The ids a ledger file holds: none when it is absent or cannot be parsed.\<close>

definition ledger_ids :: "string list json_file \<Rightarrow> string set" where
  "ledger_ids f = (case f of Content ids \<Rightarrow> set ids | _ \<Rightarrow> {})"

definition checkpoint_ids :: "string set json_file \<Rightarrow> string set" where
  "checkpoint_ids f = (case f of Content ids \<Rightarrow> ids | _ \<Rightarrow> {})"

text \<open>What a log tells about the loop: the chunks or files attempted and those skipped, in order.\<close>

definition attempted_chunks :: "event list \<Rightarrow> (datetime \<times> datetime) list" where
  "attempted_chunks evs = concat (map (\<lambda>ev. case ev of ProcessingChunk c \<Rightarrow> [c] | _ \<Rightarrow> []) evs)"

definition skipped_chunks :: "event list \<Rightarrow> string list" where
  "skipped_chunks evs = concat (map (\<lambda>ev. case ev of SkippingChunk n \<Rightarrow> [n] | _ \<Rightarrow> []) evs)"

definition attempted_files :: "event list \<Rightarrow> string list" where
  "attempted_files evs = concat (map (\<lambda>ev. case ev of ProcessingFile n \<Rightarrow> [n] | _ \<Rightarrow> []) evs)"

definition skipped_files :: "event list \<Rightarrow> string list" where
  "skipped_files evs = concat (map (\<lambda>ev. case ev of SkippingFile n \<Rightarrow> [n] | _ \<Rightarrow> []) evs)"

definition reported_errors :: "event list \<Rightarrow> (string \<times> exn) list" where
  "reported_errors evs =
     concat (map (\<lambda>ev. case ev of ErrorProcessing n e \<Rightarrow> [(n, e)] | _ \<Rightarrow> []) evs)"

text \<open>The calls of a record that write a ledger.\<close>

definition ledger_writes :: "(op \<times> string \<times> reply) list \<Rightarrow> (op \<times> string \<times> reply) list" where
  "ledger_writes cs = filter (\<lambda>x. fst x = WriteLedger) cs"

text \<open>
  The external steps of the transfer of a chunk, each recorded as completed, and the same
  with the ledger write.
\<close>

definition transfer_steps :: "datetime \<times> datetime \<Rightarrow> (op \<times> string \<times> reply) set" where
  "transfer_steps c =
     {(OpenDataset, chunk_name c, Done), (DsChunk, chunk_name c, Done),
      (ToNetcdf, temp_file c, Done), (UploadFile, s3_key c, Done),
      (OsRemove, temp_file c, Done)}"

definition complete_steps :: "datetime \<times> datetime \<Rightarrow> (op \<times> string \<times> reply) set" where
  "complete_steps c = insert (WriteLedger, log_file_name, Done) (transfer_steps c)"

text \<open>
  What one pass of the Copernicus loop body over a chunk not in the ledger does to the
  state, by the way it ends.
\<close>

definition chunk_post :: "datetime \<times> datetime \<Rightarrow> copernicus \<Rightarrow> (stage \<times> exn) option \<Rightarrow> copernicus \<Rightarrow> bool"
  where
  "chunk_post c w r w' =
     ((\<exists>evs. out w' = out w @ evs \<and> attempted_chunks evs = [c] \<and> skipped_chunks evs = []) \<and>
      replies (sys w') = replies (sys w) \<and> source (sys w') = source (sys w) \<and>
      bucket (sys w) \<subseteq> bucket (sys w') \<and>
      (\<exists>cs. calls (sys w') = calls (sys w) @ cs \<and>
         (case r of
            None \<Rightarrow>
              ledger_writes cs = [(WriteLedger, log_file_name, Done)] \<and>
              transfer_steps c \<subseteq> set cs
          | Some (st, e) \<Rightarrow>
              if st = Commit
              then (\<exists>rep. ledger_writes cs = [(WriteLedger, log_file_name, rep)] \<and>
                      failure rep = Some e \<and> transfer_steps c \<subseteq> set cs)
              else ledger_writes cs = [])) \<and>
      (case r of
         None \<Rightarrow>
           completed_chunks w' = completed_chunks w @ [chunk_name c] \<and>
           log_file w' = Content (completed_chunks w @ [chunk_name c]) \<and>
           s3_key c \<in> bucket (sys w') \<and> temp_file c \<notin> disk (sys w')
       | Some (st, e) \<Rightarrow>
           st \<in> {Fetch, Transform, Materialize, Upload, Cleanup, Commit} \<and>
           (if st = Commit
            then completed_chunks w' = completed_chunks w @ [chunk_name c] \<and>
                 (log_file w' = log_file w \<or> log_file w' = Garbled) \<and>
                 s3_key c \<in> bucket (sys w')
            else completed_chunks w' = completed_chunks w \<and> log_file w' = log_file w) \<and>
           (st = Upload \<or> st = Cleanup \<longrightarrow>
              temp_file c \<in> disk (sys w'))))"

text \<open>
  The in-memory list agrees with the ledger file: the state in which \<^verbatim>\<open>load_log\<close> leaves
  the script, and in which every successful \<^verbatim>\<open>save_log\<close> leaves it again.
\<close>

definition synced :: "copernicus \<Rightarrow> bool" where
  "synced w = (load_log w = (Inr (), w))"

definition noaa_synced :: "noaa \<Rightarrow> bool" where
  "noaa_synced w = (load_checkpoint w = (Inr (), w))"

text \<open>The calls recorded between two states of a script.\<close>

definition new_calls :: "'a process_scheme \<Rightarrow> 'b process_scheme \<Rightarrow> (op \<times> string \<times> reply) list" where
  "new_calls w w' = drop (length (calls (sys w))) (calls (sys w'))"

text \<open>The names the NOAA loop derives from a file name.\<close>

definition netcdf_name :: "string \<Rightarrow> string" where
  "netcdf_name filename = str_replace ''.grib2'' ''.nc'' filename"

definition local_nc_path :: "string \<Rightarrow> string" where
  "local_nc_path filename = path_join local_tmp (netcdf_name filename)"

definition file_name :: "string \<Rightarrow> string" where
  "file_name key = last (split_on CHR ''/'' key)"

text \<open>The calls of a record that list the source bucket, and the keys fetched, in order.\<close>

definition listings :: "(op \<times> string \<times> reply) list \<Rightarrow> (op \<times> string \<times> reply) list" where
  "listings cs = filter (\<lambda>x. fst x = ListObjects) cs"

definition fetched_keys :: "(op \<times> string \<times> reply) list \<Rightarrow> string list" where
  "fetched_keys cs = map (\<lambda>x. fst (snd x)) (filter (\<lambda>x. fst x = GetObject) cs)"

text \<open>The files a log shows the loop to have come to, attempted or skipped, in order.\<close>

definition visited_files :: "event list \<Rightarrow> string list" where
  "visited_files evs =
     concat (map (\<lambda>ev. case ev of ProcessingFile n \<Rightarrow> [n] | SkippingFile n \<Rightarrow> [n] | _ \<Rightarrow> []) evs)"

text \<open>
  What the \<^verbatim>\<open>try\<close> suite of the NOAA loop does to the state for one file, by the way it
  ends.
\<close>

definition file_post :: "string \<Rightarrow> string \<Rightarrow> noaa \<Rightarrow> (stage \<times> exn) option \<Rightarrow> noaa \<Rightarrow> bool" where
  "file_post key filename w r w' =
     (out w' = out w @ (if r = None then [CompletedFile filename] else []) \<and>
      replies (sys w') = replies (sys w) \<and> source (sys w') = source (sys w) \<and>
      bucket (sys w) \<subseteq> bucket (sys w') \<and>
      (\<exists>cs. calls (sys w') = calls (sys w) @ cs \<and>
         listings cs = [] \<and> fetched_keys cs = [key] \<and>
         (case r of
            None \<Rightarrow>
              ledger_writes cs = [(WriteLedger, checkpoint_file_name, Done)] \<and>
              (\<exists>k. (UploadFile, k, Done) \<in> set cs)
          | Some (st, e) \<Rightarrow>
              if st = Commit
              then (\<exists>rep. ledger_writes cs = [(WriteLedger, checkpoint_file_name, rep)] \<and>
                      failure rep = Some e) \<and>
                   (\<exists>k. (UploadFile, k, Done) \<in> set cs)
              else ledger_writes cs = [])) \<and>
      (case r of
         None \<Rightarrow>
           completed_files w' = insert filename (completed_files w) \<and>
           checkpoint_file w' = Content (insert filename (completed_files w)) \<and>
           local_nc_path filename \<notin> disk (sys w')
       | Some (st, e) \<Rightarrow>
           st \<in> {Fetch, Transform, Materialize, Upload, Cleanup, Commit} \<and>
           (if st = Commit
            then completed_files w' = insert filename (completed_files w) \<and>
                 (checkpoint_file w' = checkpoint_file w \<or> checkpoint_file w' = Garbled)
            else completed_files w' = completed_files w \<and>
                 checkpoint_file w' = checkpoint_file w) \<and>
           (st = Upload \<or> st = Cleanup \<longrightarrow> local_nc_path filename \<in> disk (sys w'))))"

text \<open>
  How the world may change over the calls made for one key before the local file is
  removed: nothing disappears, no ledger is written, the bucket is not listed; \<open>ks\<close> are
  the keys fetched meanwhile.
\<close>

definition advances :: "string list \<Rightarrow> system \<Rightarrow> system \<Rightarrow> bool" where
  "advances ks s s' =
     (replies s' = replies s \<and> source s' = source s \<and>
      bucket s \<subseteq> bucket s' \<and> disk s \<subseteq> disk s' \<and>
      (\<exists>cs. calls s' = calls s @ cs \<and> ledger_writes cs = [] \<and> listings cs = [] \<and>
         fetched_keys cs = ks))"

text \<open>
  The first page of the source bucket's keys under a prefix, as the service cuts it, and
  the keys of that page the script keeps.
\<close>

definition first_page :: "string \<Rightarrow> system \<Rightarrow> string list" where
  "first_page pfx s = take MaxKeys (filter (prefix pfx) (source s))"

definition planned_keys :: "system \<Rightarrow> string list" where
  "planned_keys s = filter (\<lambda>key. endswith key ''.grib2'') (first_page source_prefix s)"

text \<open>A source bucket of 1001 keys under the prefix, all of them GRIB2 files.\<close>

definition numbered_key :: "nat \<Rightarrow> string" where
  "numbered_key i = source_prefix @ replicate i CHR ''x'' @ ''.grib2''"

definition crowded_bucket :: "string list" where
  "crowded_bucket = map numbered_key [0..<1001]"

text \<open>Worlds for the examples: an exception, and answers that fail from or at a given call.\<close>

definition outage :: exn where
  "outage = Exn ''ConnectionError'' ''connection reset''"

definition succeed_until :: "nat \<Rightarrow> nat \<Rightarrow> reply" where
  "succeed_until k n = (if n < k then Done else Failed outage)"

definition fail_only_at :: "nat \<Rightarrow> nat \<Rightarrow> reply" where
  "fail_only_at k n = (if n = k then Failed outage else Done)"

definition cut_short_at :: "nat \<Rightarrow> nat \<Rightarrow> reply" where
  "cut_short_at k n = (if n = k then FailedPartway outage else Done)"

definition january :: "datetime \<times> datetime" where
  "january = (dt 2020 1 1 0, dt 2020 2 1 0)"

definition february :: "datetime \<times> datetime" where
  "february = (dt 2020 2 1 0, dt 2020 3 1 0)"

definition key_a :: string where
  "key_a = ''GEFSv12/reforecast/2019/2019010100/c00/a.grib2''"

definition key_b :: string where
  "key_b = ''GEFSv12/reforecast/2019/2019010200/c00/b.grib2''"

section \<open>The order on datetimes\<close>

lemma dt_key_inj: "dt_key a = dt_key b \<Longrightarrow> a = b"
  by (simp add: dt_key_def)

lemma dt_lt_irrefl [simp]: "\<not> dt_lt a a"
  by (simp add: dt_lt_def)

lemma dt_le_refl [simp]: "dt_le a a"
  by (simp add: dt_le_def)

lemma dt_lt_trans: "dt_lt a b \<Longrightarrow> dt_lt b c \<Longrightarrow> dt_lt a c"
  unfolding dt_lt_def by (rule less_trans)

lemma dt_le_trans: "dt_le a b \<Longrightarrow> dt_le b c \<Longrightarrow> dt_le a c"
  unfolding dt_le_def by (rule order_trans)

lemma dt_lt_le_trans: "dt_lt a b \<Longrightarrow> dt_le b c \<Longrightarrow> dt_lt a c"
  unfolding dt_lt_def dt_le_def by (rule less_le_trans)

lemma dt_le_lt_trans: "dt_le a b \<Longrightarrow> dt_lt b c \<Longrightarrow> dt_lt a c"
  unfolding dt_lt_def dt_le_def by (rule le_less_trans)

lemma dt_lt_imp_le: "dt_lt a b \<Longrightarrow> dt_le a b"
  unfolding dt_lt_def dt_le_def by (rule less_imp_le)

lemma dt_not_lt: "(\<not> dt_lt a b) = dt_le b a"
  unfolding dt_lt_def dt_le_def by (rule not_less)

lemma dt_le_less: "dt_le a b = (dt_lt a b \<or> a = b)"
  unfolding dt_lt_def dt_le_def using dt_key_inj by (auto simp: le_less)

lemma days_in_month_ge: "28 \<le> days_in_month y m"
  by (simp add: days_in_month_def)

lemma mk_next:
  assumes "valid_datetime c" and "year c < 9999 \<or> month c < 12"
  shows "mk_datetime (year c + month c div 12) (month c mod 12 + 1) (min (day c) 28) (hour c)
           = Inr (add_month_capped c)"
    and "valid_datetime (add_month_capped c)"
    and "dt_lt c (add_month_capped c)"
proof -
  have d: "min (day c) 28 \<le> days_in_month y m" for y m
    using days_in_month_ge [of y m] by simp
  show "mk_datetime (year c + month c div 12) (month c mod 12 + 1) (min (day c) 28) (hour c)
           = Inr (add_month_capped c)"
  proof (cases "month c = 12")
    case True
    with assms d show ?thesis
      by (simp add: mk_datetime_def add_month_capped_def valid_datetime_def MINYEAR_def
          MAXYEAR_def)
  next
    case False
    with assms have "month c < 12" by (simp add: valid_datetime_def)
    with assms d False show ?thesis
      by (simp add: mk_datetime_def add_month_capped_def valid_datetime_def MINYEAR_def
          MAXYEAR_def)
  qed
  show "valid_datetime (add_month_capped c)"
    using assms d by (auto simp: add_month_capped_def valid_datetime_def MINYEAR_def MAXYEAR_def)
  show "dt_lt c (add_month_capped c)"
    using assms by (auto simp: add_month_capped_def dt_lt_def dt_key_def valid_datetime_def)
qed

section \<open>Properties of the chunk planner\<close>

lemma gen_stop: "\<not> dt_lt c fin \<Longrightarrow> generate_chunks c fin = ([], None)"
  by (subst generate_chunks.simps) simp

lemma gen_raise:
  assumes "dt_lt c fin"
    and "mk_datetime (year c + month c div 12) (month c mod 12 + 1) (min (day c) 28) (hour c) = Inl e"
  shows "generate_chunks c fin = ([], Some e)"
  using assms by (subst generate_chunks.simps) simp

lemma gen_step:
  assumes "dt_lt c fin"
    and "mk_datetime (year c + month c div 12) (month c mod 12 + 1) (min (day c) 28) (hour c) = Inr nxt"
  shows "generate_chunks c fin =
     ((c, if dt_lt fin nxt then fin else nxt)
        # fst (generate_chunks (if dt_lt fin nxt then fin else nxt) fin),
      snd (generate_chunks (if dt_lt fin nxt then fin else nxt) fin))"
  using assms by (subst generate_chunks.simps) (simp add: Let_def)

text \<open>What the constructor call of the planner returns when it returns.\<close>

lemma mk_Inr:
  assumes "mk_datetime (year c + month c div 12) (month c mod 12 + 1) (min (day c) 28) (hour c) = Inr nxt"
  shows "dt_lt c nxt" and "valid_datetime nxt" and "month c \<le> 12 \<Longrightarrow> nxt = add_month_capped c"
    and "day nxt = min (day c) 28" and "hour nxt = hour c"
proof -
  from assms have n: "nxt = \<lparr>year = year c + month c div 12, month = month c mod 12 + 1,
      day = min (day c) 28, hour = hour c, minute = 0, second = 0, microsecond = 0\<rparr>"
    and ok: "MINYEAR \<le> year c + month c div 12" "year c + month c div 12 \<le> MAXYEAR"
      "1 \<le> min (day c) 28"
      "min (day c) 28 \<le> days_in_month (year c + month c div 12) (month c mod 12 + 1)"
      "hour c < 24"
    by (auto simp: mk_datetime_def split: if_splits)
  show "dt_lt c nxt"
  proof (cases "month c < 12")
    case True
    then show ?thesis by (simp add: n dt_lt_def dt_key_def)
  next
    case False
    then have "0 < month c div 12" by (simp add: div_greater_zero_iff)
    then show ?thesis by (simp add: n dt_lt_def dt_key_def)
  qed
  show "valid_datetime nxt"
    using ok by (simp add: n valid_datetime_def)
  show "day nxt = min (day c) 28" "hour nxt = hour c" by (simp_all add: n)
  show "nxt = add_month_capped c" if "month c \<le> 12"
  proof (cases "month c = 12")
    case True
    then show ?thesis by (simp add: n add_month_capped_def)
  next
    case False
    with that have "month c < 12" by simp
    then show ?thesis by (simp add: n add_month_capped_def)
  qed
qed

lemma str_nat_10000: "str_nat 10000 = ''10000''"
  by (simp add: str_nat.simps digit_def)

text \<open>For a valid datetime the call raises exactly in December 9999, and it is the year.\<close>

lemma mk_Inl:
  assumes "valid_datetime c"
    and "mk_datetime (year c + month c div 12) (month c mod 12 + 1) (min (day c) 28) (hour c) = Inl e"
  shows "year c = 9999" and "month c = 12"
    and "e = Exn ''ValueError'' ''year 10000 is out of range''"
proof -
  have ym: "\<not> (year c < 9999 \<or> month c < 12)"
  proof
    assume "year c < 9999 \<or> month c < 12"
    with assms(1) have "mk_datetime (year c + month c div 12) (month c mod 12 + 1)
        (min (day c) 28) (hour c) = Inr (add_month_capped c)" by (rule mk_next(1))
    with assms(2) show False by simp
  qed
  with assms(1) show y: "year c = 9999" and m: "month c = 12"
    by (auto simp: valid_datetime_def MAXYEAR_def)
  from assms(2) show "e = Exn ''ValueError'' ''year 10000 is out of range''"
    by (simp add: mk_datetime_def y m MAXYEAR_def str_nat_10000)
qed

lemma reached_Nil [simp]: "reached a [] = a"
  by (simp add: reached_def)

lemma reached_Cons [simp]: "reached a (c # cs) = reached (snd c) cs"
  by (simp add: reached_def)

lemma chained_contiguous: "chained a cs \<Longrightarrow> contiguous a cs (reached a cs)"
  by (induction cs arbitrary: a) simp_all

lemma contiguous_chained: "contiguous a cs b \<Longrightarrow> chained a cs \<and> reached a cs = b"
  by (induction cs arbitrary: a) simp_all

text \<open>
  What every run of the generator satisfies, whatever the two datetimes: the intervals are
  non-empty and laid end to end from the start, none ends after \<open>fin\<close>; when the generator
  ends normally they reach \<open>fin\<close>, and when it raises, it is the constructor call for the
  point reached, which is still before \<open>fin\<close>.
\<close>

lemma gen_chain:
  "chained c (fst (generate_chunks c fin)) \<and>
   (\<forall>x \<in> set (fst (generate_chunks c fin)). dt_le (snd x) fin \<and>
      (month (fst x) \<le> 12 \<longrightarrow>
         snd x = (if dt_lt fin (add_month_capped (fst x)) then fin
                  else add_month_capped (fst x)))) \<and>
   (snd (generate_chunks c fin) = None \<and> dt_le c fin
      \<longrightarrow> reached c (fst (generate_chunks c fin)) = fin) \<and>
   (\<forall>e. snd (generate_chunks c fin) = Some e \<longrightarrow>
      dt_lt (reached c (fst (generate_chunks c fin))) fin \<and>
      mk_datetime (year (reached c (fst (generate_chunks c fin)))
                     + month (reached c (fst (generate_chunks c fin))) div 12)
        (month (reached c (fst (generate_chunks c fin))) mod 12 + 1)
        (min (day (reached c (fst (generate_chunks c fin)))) 28)
        (hour (reached c (fst (generate_chunks c fin)))) = Inl e)"
proof (induction c fin rule: generate_chunks.induct)
  case (1 current fin)
  show ?case
  proof (cases "dt_lt current fin")
    case False
    then have g: "generate_chunks current fin = ([], None)" by (rule gen_stop)
    from False have "dt_le current fin \<longrightarrow> current = fin" by (auto simp: dt_le_less)
    with g show ?thesis by simp
  next
    case True
    show ?thesis
    proof (cases "mk_datetime (year current + month current div 12) (month current mod 12 + 1)
        (min (day current) 28) (hour current)")
      case (Inl e)
      with True have g: "generate_chunks current fin = ([], Some e)" by (rule gen_raise)
      with True Inl show ?thesis by simp
    next
      case (Inr nxt)
      define next_chunk where "next_chunk = (if dt_lt fin nxt then fin else nxt)"
      note IH = "1.IH" [OF True Inr next_chunk_def]
      have g: "generate_chunks current fin =
          ((current, next_chunk) # fst (generate_chunks next_chunk fin),
           snd (generate_chunks next_chunk fin))"
        using gen_step [OF True Inr] by (simp add: next_chunk_def)
      have ltn: "dt_lt current nxt" using Inr by (rule mk_Inr(1))
      have ltnc: "dt_lt current next_chunk" using True ltn by (simp add: next_chunk_def)
      have lenc: "dt_le next_chunk fin" by (simp add: next_chunk_def dt_not_lt)
      have amc: "month current \<le> 12 \<longrightarrow>
          next_chunk = (if dt_lt fin (add_month_capped current) then fin
                        else add_month_capped current)"
        using mk_Inr(3) [OF Inr] by (auto simp: next_chunk_def)
      show ?thesis
        unfolding g using IH ltnc lenc amc by simp
    qed
  qed
qed

lemma gen_valid:
  "valid_datetime c \<Longrightarrow> \<forall>x \<in> set (fst (generate_chunks c fin)). valid_datetime (fst x)"
proof (induction c fin rule: generate_chunks.induct)
  case (1 current fin)
  show ?case
  proof (cases "dt_lt current fin")
    case False
    then have "generate_chunks current fin = ([], None)" by (rule gen_stop)
    then show ?thesis by simp
  next
    case True
    show ?thesis
    proof (cases "mk_datetime (year current + month current div 12) (month current mod 12 + 1)
        (min (day current) 28) (hour current)")
      case (Inl e)
      with True have "generate_chunks current fin = ([], Some e)" by (rule gen_raise)
      then show ?thesis by simp
    next
      case (Inr nxt)
      define next_chunk where "next_chunk = (if dt_lt fin nxt then fin else nxt)"
      have g: "generate_chunks current fin =
          ((current, next_chunk) # fst (generate_chunks next_chunk fin),
           snd (generate_chunks next_chunk fin))"
        using gen_step [OF True Inr] by (simp add: next_chunk_def)
      have rest: "\<forall>x \<in> set (fst (generate_chunks next_chunk fin)). valid_datetime (fst x)"
      proof (cases "dt_lt fin nxt")
        case True
        then have "next_chunk = fin" by (simp add: next_chunk_def)
        then have "generate_chunks next_chunk fin = ([], None)" by (simp add: gen_stop)
        then show ?thesis by simp
      next
        case False
        then have "next_chunk = nxt" by (simp add: next_chunk_def)
        with mk_Inr(2) [OF Inr] have "valid_datetime next_chunk" by simp
        with "1.IH" [OF True Inr next_chunk_def] show ?thesis by simp
      qed
      with "1.prems" show ?thesis unfolding g by simp
    qed
  qed
qed

text \<open>
  The chunk start in December 9999 towards which the generator walks: the generator ends
  normally exactly when the domain ends no later than it.
\<close>

lemma final_chunk_start_next:
  assumes "valid_datetime c"
    and "mk_datetime (year c + month c div 12) (month c mod 12 + 1) (min (day c) 28) (hour c) = Inr nxt"
  shows "final_chunk_start nxt = final_chunk_start c" and "dt_le nxt (final_chunk_start c)"
proof -
  from assms(2) have n: "nxt = \<lparr>year = year c + month c div 12, month = month c mod 12 + 1,
      day = min (day c) 28, hour = hour c, minute = 0, second = 0, microsecond = 0\<rparr>"
    and ymax: "year c + month c div 12 \<le> 9999"
    by (auto simp: mk_datetime_def MAXYEAR_def split: if_splits)
  from assms(1) have m: "1 \<le> month c" "month c \<le> 12" by (simp_all add: valid_datetime_def)
  have notlast: "\<not> (year c = 9999 \<and> month c = 12)" using ymax by auto
  have mn: "month c mod 12 + 1 \<le> 12" by simp
  from notlast show "final_chunk_start nxt = final_chunk_start c"
    by (auto simp: final_chunk_start_def n)
  show "dt_le nxt (final_chunk_start c)"
  proof (cases "year c + month c div 12 < 9999")
    case True
    with notlast show ?thesis by (simp add: final_chunk_start_def n dt_le_def dt_key_def)
  next
    case False
    with ymax have y: "year c + month c div 12 = 9999" by simp
    show ?thesis
    proof (cases "month c mod 12 + 1 < 12")
      case True
      with notlast y show ?thesis by (simp add: final_chunk_start_def n dt_le_def dt_key_def)
    next
      case False
      with mn have "month c mod 12 + 1 = 12" by simp
      with notlast y show ?thesis by (simp add: final_chunk_start_def n dt_le_def dt_key_def)
    qed
  qed
qed

lemma gen_ends_normally:
  "valid_datetime c \<Longrightarrow>
   (snd (generate_chunks c fin) = None) = (\<not> dt_lt c fin \<or> dt_le fin (final_chunk_start c))"
proof (induction c fin rule: generate_chunks.induct)
  case (1 current fin)
  show ?case
  proof (cases "dt_lt current fin")
    case False
    then have "generate_chunks current fin = ([], None)" by (rule gen_stop)
    with False show ?thesis by simp
  next
    case True
    show ?thesis
    proof (cases "mk_datetime (year current + month current div 12) (month current mod 12 + 1)
        (min (day current) 28) (hour current)")
      case (Inl e)
      with True have g: "generate_chunks current fin = ([], Some e)" by (rule gen_raise)
      from mk_Inl(1,2) [OF "1.prems" Inl] have "final_chunk_start current = current"
        by (simp add: final_chunk_start_def)
      with True have "\<not> dt_le fin (final_chunk_start current)" by (simp add: dt_not_lt [symmetric])
      with g True show ?thesis by simp
    next
      case (Inr nxt)
      define next_chunk where "next_chunk = (if dt_lt fin nxt then fin else nxt)"
      have g: "generate_chunks current fin =
          ((current, next_chunk) # fst (generate_chunks next_chunk fin),
           snd (generate_chunks next_chunk fin))"
        using gen_step [OF True Inr] by (simp add: next_chunk_def)
      note fc = final_chunk_start_next [OF "1.prems" Inr]
      show ?thesis
      proof (cases "dt_lt fin nxt")
        case lt: True
        then have "next_chunk = fin" by (simp add: next_chunk_def)
        then have n: "snd (generate_chunks next_chunk fin) = None" by (simp add: gen_stop)
        from lt fc(2) have "dt_le fin (final_chunk_start current)"
          by (metis dt_lt_imp_le dt_lt_le_trans)
        with n show ?thesis unfolding g by simp
      next
        case False
        then have nc: "next_chunk = nxt" by (simp add: next_chunk_def)
        from False have le: "dt_le nxt fin" by (simp add: dt_not_lt)
        have vn: "valid_datetime next_chunk" using mk_Inr(2) [OF Inr] nc by simp
        from "1.IH" [OF True Inr next_chunk_def vn]
        have IH: "(snd (generate_chunks nxt fin) = None)
            = (\<not> dt_lt nxt fin \<or> dt_le fin (final_chunk_start current))"
          by (simp add: nc fc(1))
        have "\<not> dt_lt nxt fin \<Longrightarrow> dt_le fin (final_chunk_start current)"
          using fc(2) by (metis dt_not_lt dt_le_trans)
        with IH True show ?thesis unfolding g nc by auto
      qed
    qed
  qed
qed

lemma gen_raises_in_december:
  "valid_datetime c \<Longrightarrow> snd (generate_chunks c fin) = Some e \<Longrightarrow>
   year (reached c (fst (generate_chunks c fin))) = 9999 \<and>
   month (reached c (fst (generate_chunks c fin))) = 12 \<and>
   e = Exn ''ValueError'' ''year 10000 is out of range''"
proof (induction c fin rule: generate_chunks.induct)
  case (1 current fin)
  show ?case
  proof (cases "dt_lt current fin")
    case False
    then have "generate_chunks current fin = ([], None)" by (rule gen_stop)
    with "1.prems"(2) show ?thesis by simp
  next
    case True
    show ?thesis
    proof (cases "mk_datetime (year current + month current div 12) (month current mod 12 + 1)
        (min (day current) 28) (hour current)")
      case (Inl e')
      with True have g: "generate_chunks current fin = ([], Some e')" by (rule gen_raise)
      with "1.prems"(2) have "e' = e" by simp
      with mk_Inl [OF "1.prems"(1) Inl] g show ?thesis by simp
    next
      case (Inr nxt)
      define next_chunk where "next_chunk = (if dt_lt fin nxt then fin else nxt)"
      have g: "generate_chunks current fin =
          ((current, next_chunk) # fst (generate_chunks next_chunk fin),
           snd (generate_chunks next_chunk fin))"
        using gen_step [OF True Inr] by (simp add: next_chunk_def)
      from "1.prems"(2) g have s: "snd (generate_chunks next_chunk fin) = Some e" by simp
      have nc: "next_chunk = nxt"
      proof (rule ccontr)
        assume "next_chunk \<noteq> nxt"
        then have "next_chunk = fin" by (simp add: next_chunk_def split: if_splits)
        then have "snd (generate_chunks next_chunk fin) = None" by (simp add: gen_stop)
        with s show False by simp
      qed
      with mk_Inr(2) [OF Inr] have vn: "valid_datetime next_chunk" by simp
      from "1.IH" [OF True Inr next_chunk_def vn s] show ?thesis unfolding g by simp
    qed
  qed
qed

lemmas dt_eval = dt_def dt_lt_def dt_le_def dt_key_def mk_datetime_def days_in_month_def
  is_leap_def MINYEAR_def MAXYEAR_def valid_datetime_def

lemma interval_empty [simp]: "interval (a, a) = {}"
  by (auto simp: interval_def dt_lt_def dt_le_def)

lemma interval_split:
  assumes "dt_lt a e" and "dt_le e b"
  shows "interval (a, e) \<union> interval (e, b) = interval (a, b)"
  using assms unfolding interval_def dt_lt_def dt_le_def by auto

lemma contiguous_le: "contiguous a cs b \<Longrightarrow> dt_le a b"
proof (induction cs arbitrary: a)
  case Nil
  then show ?case by simp
next
  case (Cons c cs)
  then have "dt_lt a (snd c)" and "dt_le (snd c) b" by auto
  then show ?case by (metis dt_lt_imp_le dt_lt_le_trans)
qed

lemma contiguous_cover:
  "contiguous a cs b \<Longrightarrow> (\<Union>c \<in> set cs. interval c) = interval (a, b)"
proof (induction cs arbitrary: a)
  case Nil
  then show ?case by simp
next
  case (Cons c cs)
  then have c: "fst c = a" and lt: "dt_lt a (snd c)" and rest: "contiguous (snd c) cs b"
    by auto
  have "(\<Union>x \<in> set cs. interval x) = interval (snd c, b)"
    using rest by (rule Cons.IH)
  moreover have "dt_le (snd c) b" using rest by (rule contiguous_le)
  moreover have "interval c = interval (a, snd c)"
    using c by (cases c) simp
  ultimately show ?case
    using interval_split [OF lt] by auto
qed

lemma contiguous_after:
  "contiguous a cs b \<Longrightarrow> x \<in> set cs \<Longrightarrow> dt_le a (fst x) \<and> dt_lt (fst x) (snd x) \<and> dt_le (snd x) b"
proof (induction cs arbitrary: a)
  case Nil
  then show ?case by simp
next
  case (Cons c cs)
  show ?case
  proof (cases "x = c")
    case True
    with Cons.prems contiguous_le [of "snd c" cs b] show ?thesis by auto
  next
    case False
    with Cons.prems have "x \<in> set cs" and r: "contiguous (snd c) cs b"
      and lt: "dt_lt a (snd c)" by auto
    then have "dt_le (snd c) (fst x) \<and> dt_lt (fst x) (snd x) \<and> dt_le (snd x) b"
      using Cons.IH by blast
    with lt show ?thesis by (metis dt_lt_imp_le dt_lt_le_trans)
  qed
qed

lemma interval_disjoint: "dt_le (snd c) (fst d) \<Longrightarrow> interval c \<inter> interval d = {}"
  unfolding interval_def dt_lt_def dt_le_def by auto

lemma contiguous_disjoint:
  "contiguous a cs b \<Longrightarrow> sorted_wrt (\<lambda>c d. interval c \<inter> interval d = {}) cs"
proof (induction cs arbitrary: a)
  case Nil
  then show ?case by simp
next
  case (Cons c cs)
  then have r: "contiguous (snd c) cs b" by simp
  have "interval c \<inter> interval d = {}" if "d \<in> set cs" for d
    using contiguous_after [OF r that] by (simp add: interval_disjoint)
  with Cons.IH [OF r] show ?case by simp
qed

lemma contiguous_adjacent:
  "contiguous a cs b \<Longrightarrow> Suc i < length cs \<Longrightarrow> snd (cs ! i) = fst (cs ! Suc i)"
proof (induction cs arbitrary: a i)
  case Nil
  then show ?case by simp
next
  case (Cons c cs)
  then have r: "contiguous (snd c) cs b" by simp
  show ?case
  proof (cases i)
    case 0
    with Cons.prems r show ?thesis by (cases cs) auto
  next
    case (Suc j)
    with Cons.prems Cons.IH [OF r, of j] show ?thesis by simp
  qed
qed

lemma contiguous_ends:
  "contiguous a cs b \<Longrightarrow> cs \<noteq> [] \<Longrightarrow> fst (hd cs) = a \<and> snd (last cs) = b"
proof (induction cs arbitrary: a)
  case Nil
  then show ?case by simp
next
  case (Cons c cs)
  then show ?case by (cases cs) auto
qed

lemma contiguous_increasing: "contiguous a cs b \<Longrightarrow> sorted_wrt dt_lt (map fst cs)"
proof (induction cs arbitrary: a)
  case Nil
  then show ?case by simp
next
  case (Cons c cs)
  then have r: "contiguous (snd c) cs b" and lt: "dt_lt (fst c) (snd c)" by auto
  have "dt_lt (fst c) (fst x)" if "x \<in> set cs" for x
    using contiguous_after [OF r that] lt by (metis dt_lt_le_trans)
  with Cons.IH [OF r] show ?case by simp
qed

text \<open>The facts of a run of the generator, in terms of its two results.\<close>

lemma gen_facts:
  assumes "generate_chunks start fin = (chunks, err)"
  shows "contiguous start chunks (reached start chunks)"
    and "\<forall>x \<in> set chunks. dt_le (snd x) fin"
    and "\<forall>x \<in> set chunks. month (fst x) \<le> 12 \<longrightarrow>
           snd x = (if dt_lt fin (add_month_capped (fst x)) then fin else add_month_capped (fst x))"
    and "err = None \<Longrightarrow> dt_le start fin \<Longrightarrow> reached start chunks = fin"
    and "err = Some e \<Longrightarrow> dt_lt (reached start chunks) fin \<and>
           mk_datetime (year (reached start chunks) + month (reached start chunks) div 12)
             (month (reached start chunks) mod 12 + 1) (min (day (reached start chunks)) 28)
             (hour (reached start chunks)) = Inl e"
    and "valid_datetime start \<Longrightarrow> \<forall>x \<in> set chunks. valid_datetime (fst x)"
    and "valid_datetime start \<Longrightarrow> err = Some e \<Longrightarrow>
           year (reached start chunks) = 9999 \<and> month (reached start chunks) = 12 \<and>
           e = Exn ''ValueError'' ''year 10000 is out of range''"
    and "valid_datetime start \<Longrightarrow> dt_lt start fin \<Longrightarrow>
           (err = None) = dt_le fin (final_chunk_start start)"
proof -
  from assms have c: "chunks = fst (generate_chunks start fin)"
    and e: "err = snd (generate_chunks start fin)" by simp_all
  note gc = gen_chain [of start fin, folded c e]
  from gc show cont: "contiguous start chunks (reached start chunks)"
    by (simp add: chained_contiguous)
  from gc show "\<forall>x \<in> set chunks. dt_le (snd x) fin" by blast
  from gc show "\<forall>x \<in> set chunks. month (fst x) \<le> 12 \<longrightarrow>
           snd x = (if dt_lt fin (add_month_capped (fst x)) then fin else add_month_capped (fst x))"
    by blast
  from gc show "err = None \<Longrightarrow> dt_le start fin \<Longrightarrow> reached start chunks = fin" by blast
  from gc show "err = Some e \<Longrightarrow> dt_lt (reached start chunks) fin \<and>
           mk_datetime (year (reached start chunks) + month (reached start chunks) div 12)
             (month (reached start chunks) mod 12 + 1) (min (day (reached start chunks)) 28)
             (hour (reached start chunks)) = Inl e" for e by blast
  show v: "\<forall>x \<in> set chunks. valid_datetime (fst x)" if "valid_datetime start"
    using gen_valid [OF that, of fin] by (simp add: c)
  show "year (reached start chunks) = 9999 \<and> month (reached start chunks) = 12 \<and>
           e = Exn ''ValueError'' ''year 10000 is out of range''"
    if "valid_datetime start" and "err = Some e" for e
    using gen_raises_in_december [OF that(1), of fin e] that(2) by (simp add: c e)
  show "(err = None) = dt_le fin (final_chunk_start start)"
    if "valid_datetime start" and "dt_lt start fin"
    using gen_ends_normally [OF that(1), of fin] that(2) by (simp add: e)
qed

text \<open>
  Claim C3 as the code has it, for naive datetimes.  Whatever the domain, the intervals the
  planner yields are pairwise disjoint, each is non-empty and ends no later than \<open>fin\<close>,
  and together they cover, without a gap, the span from \<open>start\<close> to the point the planner
  reached.  When the planner ends without an exception on a domain \<open>start < fin\<close>, that
  point is \<open>fin\<close>: the intervals run end to end from \<open>start\<close> to \<open>fin\<close>, their union is
  the whole domain, and the last one ends at \<open>fin\<close>.  When it raises, the point reached
  is before \<open>fin\<close> and the rest of the domain is not covered.  For a valid \<open>start\<close>, every
  interval ends at most one calendar month (day capped at 28) after its start; the
  planner ends without an exception exactly when \<open>fin\<close> is no later than the chunk start
  in December 9999 it walks towards; otherwise the exception is the
  \<^verbatim>\<open>ValueError\<close> of \<^verbatim>\<open>datetime(10000, 1, ...)\<close>.
\<close>

theorem generate_chunks_partition:
  "generate_chunks start fin = (chunks, err) \<longrightarrow>
     sorted_wrt (\<lambda>c d. interval c \<inter> interval d = {}) chunks \<and>
     (\<forall>c \<in> set chunks. dt_lt (fst c) (snd c) \<and> dt_le (snd c) fin) \<and>
     (\<Union>c \<in> set chunks. interval c) = interval (start, reached start chunks) \<and>
     (err = None \<and> dt_lt start fin \<longrightarrow>
        contiguous start chunks fin \<and>
        (\<Union>c \<in> set chunks. interval c) = interval (start, fin) \<and>
        chunks \<noteq> [] \<and> snd (last chunks) = fin) \<and>
     (err \<noteq> None \<longrightarrow>
        dt_lt (reached start chunks) fin \<and>
        reached start chunks \<in> interval (start, fin) \<and>
        reached start chunks \<notin> (\<Union>c \<in> set chunks. interval c)) \<and>
     (valid_datetime start \<longrightarrow>
        (\<forall>c \<in> set chunks. dt_le (snd c) (add_month_capped (fst c))) \<and>
        (dt_lt start fin \<longrightarrow> (err = None) = dt_le fin (final_chunk_start start)) \<and>
        (err \<noteq> None \<longrightarrow> err = Some (Exn ''ValueError'' ''year 10000 is out of range'')))"
proof
  assume g: "generate_chunks start fin = (chunks, err)"
  note f = gen_facts [OF g]
  note cont = f(1)
  have cover: "(\<Union>c \<in> set chunks. interval c) = interval (start, reached start chunks)"
    using cont by (rule contiguous_cover)
  have disj: "sorted_wrt (\<lambda>c d. interval c \<inter> interval d = {}) chunks"
    using cont by (rule contiguous_disjoint)
  have each: "\<forall>c \<in> set chunks. dt_lt (fst c) (snd c) \<and> dt_le (snd c) fin"
    using contiguous_after [OF cont] f(2) by blast
  have normal: "err = None \<and> dt_lt start fin \<longrightarrow>
        contiguous start chunks fin \<and>
        (\<Union>c \<in> set chunks. interval c) = interval (start, fin) \<and>
        chunks \<noteq> [] \<and> snd (last chunks) = fin"
  proof
    assume a: "err = None \<and> dt_lt start fin"
    then have r: "reached start chunks = fin" using f(4) by (simp add: dt_lt_imp_le)
    with cont have c: "contiguous start chunks fin" by simp
    from a c have ne: "chunks \<noteq> []" by (cases chunks) auto
    from c cover r ne contiguous_ends [OF c ne]
    show "contiguous start chunks fin \<and>
        (\<Union>c \<in> set chunks. interval c) = interval (start, fin) \<and>
        chunks \<noteq> [] \<and> snd (last chunks) = fin" by simp
  qed
  have raised: "err \<noteq> None \<longrightarrow>
        dt_lt (reached start chunks) fin \<and>
        reached start chunks \<in> interval (start, fin) \<and>
        reached start chunks \<notin> (\<Union>c \<in> set chunks. interval c)"
  proof
    assume "err \<noteq> None"
    then obtain e where "err = Some e" by auto
    with f(5) have lt: "dt_lt (reached start chunks) fin" by simp
    from cont have "dt_le start (reached start chunks)" by (rule contiguous_le)
    with lt have "reached start chunks \<in> interval (start, fin)" by (simp add: interval_def)
    moreover have "reached start chunks \<notin> (\<Union>c \<in> set chunks. interval c)"
      unfolding cover by (simp add: interval_def)
    ultimately show "dt_lt (reached start chunks) fin \<and>
        reached start chunks \<in> interval (start, fin) \<and>
        reached start chunks \<notin> (\<Union>c \<in> set chunks. interval c)" using lt by simp
  qed
  have valid: "valid_datetime start \<longrightarrow>
        (\<forall>c \<in> set chunks. dt_le (snd c) (add_month_capped (fst c))) \<and>
        (dt_lt start fin \<longrightarrow> (err = None) = dt_le fin (final_chunk_start start)) \<and>
        (err \<noteq> None \<longrightarrow> err = Some (Exn ''ValueError'' ''year 10000 is out of range''))"
  proof
    assume v: "valid_datetime start"
    have span: "\<forall>c \<in> set chunks. dt_le (snd c) (add_month_capped (fst c))"
    proof
      fix c assume c: "c \<in> set chunks"
      with f(6) [OF v] have "month (fst c) \<le> 12" by (simp add: valid_datetime_def)
      with f(3) c have "snd c = (if dt_lt fin (add_month_capped (fst c)) then fin
          else add_month_capped (fst c))" by simp
      then show "dt_le (snd c) (add_month_capped (fst c))"
        by (simp add: dt_lt_imp_le split: if_splits)
    qed
    have ex: "err \<noteq> None \<longrightarrow> err = Some (Exn ''ValueError'' ''year 10000 is out of range'')"
      using f(7) [OF v] by auto
    from span f(8) [OF v] ex
    show "(\<forall>c \<in> set chunks. dt_le (snd c) (add_month_capped (fst c))) \<and>
        (dt_lt start fin \<longrightarrow> (err = None) = dt_le fin (final_chunk_start start)) \<and>
        (err \<noteq> None \<longrightarrow> err = Some (Exn ''ValueError'' ''year 10000 is out of range''))"
      by simp
  qed
  from disj each cover normal raised valid
  show "sorted_wrt (\<lambda>c d. interval c \<inter> interval d = {}) chunks \<and>
     (\<forall>c \<in> set chunks. dt_lt (fst c) (snd c) \<and> dt_le (snd c) fin) \<and>
     (\<Union>c \<in> set chunks. interval c) = interval (start, reached start chunks) \<and>
     (err = None \<and> dt_lt start fin \<longrightarrow>
        contiguous start chunks fin \<and>
        (\<Union>c \<in> set chunks. interval c) = interval (start, fin) \<and>
        chunks \<noteq> [] \<and> snd (last chunks) = fin) \<and>
     (err \<noteq> None \<longrightarrow>
        dt_lt (reached start chunks) fin \<and>
        reached start chunks \<in> interval (start, fin) \<and>
        reached start chunks \<notin> (\<Union>c \<in> set chunks. interval c)) \<and>
     (valid_datetime start \<longrightarrow>
        (\<forall>c \<in> set chunks. dt_le (snd c) (add_month_capped (fst c))) \<and>
        (dt_lt start fin \<longrightarrow> (err = None) = dt_le fin (final_chunk_start start)) \<and>
        (err \<noteq> None \<longrightarrow> err = Some (Exn ''ValueError'' ''year 10000 is out of range'')))"
    by (intro conjI)
qed

lemma planned_1980:
  "generate_chunks (dt 1980 1 1 21) (dt 1980 4 30 21)
     = ([(dt 1980 1 1 21, dt 1980 2 1 21), (dt 1980 2 1 21, dt 1980 3 1 21),
         (dt 1980 3 1 21, dt 1980 4 1 21), (dt 1980 4 1 21, dt 1980 4 30 21)], None)"
  by (simp add: generate_chunks.simps dt_eval Let_def)

lemma planned_9999:
  "generate_chunks (dt 9999 11 15 0) (dt 9999 12 10 0)
     = ([(dt 9999 11 15 0, dt 9999 12 10 0)], None)"
  by (simp add: generate_chunks.simps dt_eval Let_def)

theorem generate_chunks_partition_witness:
  "valid_datetime (dt 1980 1 1 21) \<and> dt_lt (dt 1980 1 1 21) (dt 1980 4 30 21) \<and>
   snd (generate_chunks (dt 1980 1 1 21) (dt 1980 4 30 21)) = None \<and>
   dt_le (dt 1980 4 30 21) (final_chunk_start (dt 1980 1 1 21)) \<and>
   contiguous (dt 1980 1 1 21) (fst (generate_chunks (dt 1980 1 1 21) (dt 1980 4 30 21)))
     (dt 1980 4 30 21) \<and>
   (\<Union>c \<in> set (fst (generate_chunks (dt 1980 1 1 21) (dt 1980 4 30 21))). interval c)
     = interval (dt 1980 1 1 21, dt 1980 4 30 21) \<and>
   (dt 1980 4 1 21, dt 1980 4 30 21)
     \<in> set (fst (generate_chunks (dt 1980 1 1 21) (dt 1980 4 30 21))) \<and>
   dt_le (dt 1980 4 30 21) (add_month_capped (dt 1980 4 1 21)) \<and>
   valid_datetime (dt 9999 11 15 0) \<and> dt_lt (dt 9999 11 15 0) (dt 9999 12 10 0) \<and>
   dt_le (dt 9999 12 10 0) (final_chunk_start (dt 9999 11 15 0)) \<and>
   snd (generate_chunks (dt 9999 11 15 0) (dt 9999 12 10 0)) = None \<and>
   (\<Union>c \<in> set (fst (generate_chunks (dt 9999 11 15 0) (dt 9999 12 10 0))). interval c)
     = interval (dt 9999 11 15 0, dt 9999 12 10 0) \<and>
   valid_datetime (dt 9999 11 15 0) \<and> dt_lt (dt 9999 11 15 0) (dt 9999 12 31 0) \<and>
   \<not> dt_le (dt 9999 12 31 0) (final_chunk_start (dt 9999 11 15 0)) \<and>
   snd (generate_chunks (dt 9999 11 15 0) (dt 9999 12 31 0))
     = Some (Exn ''ValueError'' ''year 10000 is out of range'')"
proof -
  let ?a = "dt 1980 1 1 21" and ?b = "dt 1980 4 30 21"
  let ?c = "dt 9999 11 15 0" and ?d = "dt 9999 12 10 0" and ?e = "dt 9999 12 31 0"
  have h1: "valid_datetime ?a" "dt_lt ?a ?b" "dt_le ?b (final_chunk_start ?a)"
    by (simp_all add: dt_eval final_chunk_start_def)
  have h2: "valid_datetime ?c" "dt_lt ?c ?d" "dt_le ?d (final_chunk_start ?c)"
    by (simp_all add: dt_eval final_chunk_start_def)
  have h3: "dt_lt ?c ?e" "\<not> dt_le ?e (final_chunk_start ?c)"
    by (simp_all add: dt_eval final_chunk_start_def)
  have g: "generate_chunks x y = (fst (generate_chunks x y), snd (generate_chunks x y))" for x y
    by simp
  note t1 = generate_chunks_partition [of ?a ?b "fst (generate_chunks ?a ?b)"
      "snd (generate_chunks ?a ?b)"]
  note t2 = generate_chunks_partition [of ?c ?d "fst (generate_chunks ?c ?d)"
      "snd (generate_chunks ?c ?d)"]
  note t3 = generate_chunks_partition [of ?c ?e "fst (generate_chunks ?c ?e)"
      "snd (generate_chunks ?c ?e)"]
  from t1 g h1 have n1: "snd (generate_chunks ?a ?b) = None" by blast
  with t1 g h1 have p1: "contiguous ?a (fst (generate_chunks ?a ?b)) ?b"
    "(\<Union>c \<in> set (fst (generate_chunks ?a ?b)). interval c) = interval (?a, ?b)"
    "\<forall>c \<in> set (fst (generate_chunks ?a ?b)). dt_le (snd c) (add_month_capped (fst c))"
    by blast+
  have mem: "(dt 1980 4 1 21, dt 1980 4 30 21) \<in> set (fst (generate_chunks ?a ?b))"
    unfolding planned_1980 by simp
  with p1(3) have p1': "dt_le (dt 1980 4 30 21) (add_month_capped (dt 1980 4 1 21))"
    by fastforce
  from t2 g h2 have n2: "snd (generate_chunks ?c ?d) = None" by blast
  with t2 g h2 have p2: "(\<Union>c \<in> set (fst (generate_chunks ?c ?d)). interval c) = interval (?c, ?d)"
    by blast
  from t3 g h2(1) h3 have n3: "snd (generate_chunks ?c ?e) \<noteq> None" by blast
  with t3 g h2(1) have p3: "snd (generate_chunks ?c ?e)
      = Some (Exn ''ValueError'' ''year 10000 is out of range'')" by blast
  from h1 h2 h3 n1 p1(1,2) mem p1' n2 p2 p3 show ?thesis by blast
qed

text \<open>
  Claim C3 as stated fails when a chunk starts in December 9999: the month after it does
  not exist as a datetime, the constructor raises before the truncation to the end of the
  domain, and the intervals yielded so far leave the rest of the domain uncovered.
\<close>

theorem generate_chunks_gap_9999:
  "valid_datetime (dt 9999 11 15 0) \<and> valid_datetime (dt 9999 12 31 0) \<and>
   dt_lt (dt 9999 11 15 0) (dt 9999 12 31 0) \<and>
   generate_chunks (dt 9999 11 15 0) (dt 9999 12 31 0)
     = ([(dt 9999 11 15 0, dt 9999 12 15 0)],
        Some (Exn ''ValueError'' ''year 10000 is out of range'')) \<and>
   dt 9999 12 20 0 \<in> interval (dt 9999 11 15 0, dt 9999 12 31 0) \<and>
   dt 9999 12 20 0 \<notin> (\<Union>c \<in> set (fst (generate_chunks (dt 9999 11 15 0) (dt 9999 12 31 0))).
      interval c)"
  by (simp add: generate_chunks.simps dt_eval Let_def interval_def str_nat.simps digit_def)

text \<open>
  Claim C9 as the code has it, for naive datetimes.  The generator is total: every call
  has its finite list of intervals and its way of ending.  For \<open>start \<ge> fin\<close> it yields
  nothing and ends normally.  Whatever the two datetimes, every yielded interval has its
  start before its end, every end is the next start, the starts increase strictly, the
  first start is \<open>start\<close>, and an interval that starts in December and is not truncated
  ends in January of the next year, on the same hour and on the day capped at 28.  For
  \<open>start < fin\<close> a generator that ends normally has yielded a non-empty sequence whose last
  end is \<open>fin\<close>.  For a valid \<open>start < fin\<close> it ends normally exactly when \<open>fin\<close> is no later
  than the chunk start in December 9999 it walks towards; otherwise it has reached a
  datetime of December 9999 before \<open>fin\<close> and raises the \<^verbatim>\<open>ValueError\<close> of the year 10000
  instead of rolling the year over.
\<close>

theorem generate_chunks_sequence:
  "generate_chunks start fin = (chunks, err) \<longrightarrow>
     (\<not> dt_lt start fin \<longrightarrow> chunks = [] \<and> err = None) \<and>
     (\<forall>c \<in> set chunks. dt_lt (fst c) (snd c)) \<and>
     (\<forall>i. Suc i < length chunks \<longrightarrow> snd (chunks ! i) = fst (chunks ! Suc i)) \<and>
     sorted_wrt dt_lt (map fst chunks) \<and>
     (chunks \<noteq> [] \<longrightarrow> fst (hd chunks) = start) \<and>
     (\<forall>c \<in> set chunks. month (fst c) = 12 \<and> dt_le (add_month_capped (fst c)) fin \<longrightarrow>
        year (snd c) = year (fst c) + 1 \<and> month (snd c) = 1 \<and>
        day (snd c) = min (day (fst c)) 28 \<and> hour (snd c) = hour (fst c)) \<and>
     (dt_lt start fin \<and> err = None \<longrightarrow> chunks \<noteq> [] \<and> snd (last chunks) = fin) \<and>
     (valid_datetime start \<and> dt_lt start fin \<longrightarrow>
        (err = None) = dt_le fin (final_chunk_start start) \<and>
        (err \<noteq> None \<longrightarrow>
           err = Some (Exn ''ValueError'' ''year 10000 is out of range'') \<and>
           year (reached start chunks) = 9999 \<and> month (reached start chunks) = 12 \<and>
           dt_lt (reached start chunks) fin))"
proof
  assume g: "generate_chunks start fin = (chunks, err)"
  note f = gen_facts [OF g]
  note cont = f(1)
  have stop: "\<not> dt_lt start fin \<longrightarrow> chunks = [] \<and> err = None"
    using g gen_stop [of start fin] by auto
  have lt: "\<forall>c \<in> set chunks. dt_lt (fst c) (snd c)"
    using contiguous_after [OF cont] by blast
  have adj: "\<forall>i. Suc i < length chunks \<longrightarrow> snd (chunks ! i) = fst (chunks ! Suc i)"
    using contiguous_adjacent [OF cont] by blast
  have inc: "sorted_wrt dt_lt (map fst chunks)"
    using cont by (rule contiguous_increasing)
  have first: "chunks \<noteq> [] \<longrightarrow> fst (hd chunks) = start"
    using contiguous_ends [OF cont] by simp
  have roll: "\<forall>c \<in> set chunks. month (fst c) = 12 \<and> dt_le (add_month_capped (fst c)) fin \<longrightarrow>
        year (snd c) = year (fst c) + 1 \<and> month (snd c) = 1 \<and>
        day (snd c) = min (day (fst c)) 28 \<and> hour (snd c) = hour (fst c)"
  proof (intro ballI impI)
    fix c assume c: "c \<in> set chunks"
      and m: "month (fst c) = 12 \<and> dt_le (add_month_capped (fst c)) fin"
    then have "\<not> dt_lt fin (add_month_capped (fst c))" by (simp add: dt_not_lt)
    with f(3) c m have "snd c = add_month_capped (fst c)" by simp
    with m show "year (snd c) = year (fst c) + 1 \<and> month (snd c) = 1 \<and>
        day (snd c) = min (day (fst c)) 28 \<and> hour (snd c) = hour (fst c)"
      by (simp add: add_month_capped_def)
  qed
  have normal: "dt_lt start fin \<and> err = None \<longrightarrow> chunks \<noteq> [] \<and> snd (last chunks) = fin"
  proof
    assume a: "dt_lt start fin \<and> err = None"
    then have r: "reached start chunks = fin" using f(4) by (simp add: dt_lt_imp_le)
    with cont have c: "contiguous start chunks fin" by simp
    from a c have ne: "chunks \<noteq> []" by (cases chunks) auto
    with contiguous_ends [OF c ne] show "chunks \<noteq> [] \<and> snd (last chunks) = fin" by simp
  qed
  have valid: "valid_datetime start \<and> dt_lt start fin \<longrightarrow>
        (err = None) = dt_le fin (final_chunk_start start) \<and>
        (err \<noteq> None \<longrightarrow>
           err = Some (Exn ''ValueError'' ''year 10000 is out of range'') \<and>
           year (reached start chunks) = 9999 \<and> month (reached start chunks) = 12 \<and>
           dt_lt (reached start chunks) fin)"
  proof
    assume a: "valid_datetime start \<and> dt_lt start fin"
    then have v: "valid_datetime start" and l: "dt_lt start fin" by simp_all
    have "err \<noteq> None \<longrightarrow>
           err = Some (Exn ''ValueError'' ''year 10000 is out of range'') \<and>
           year (reached start chunks) = 9999 \<and> month (reached start chunks) = 12 \<and>
           dt_lt (reached start chunks) fin"
      using f(5) f(7) [OF v] by auto
    with f(8) [OF v l] show "(err = None) = dt_le fin (final_chunk_start start) \<and>
        (err \<noteq> None \<longrightarrow>
           err = Some (Exn ''ValueError'' ''year 10000 is out of range'') \<and>
           year (reached start chunks) = 9999 \<and> month (reached start chunks) = 12 \<and>
           dt_lt (reached start chunks) fin)" by simp
  qed
  from stop lt adj inc first roll normal valid
  show "(\<not> dt_lt start fin \<longrightarrow> chunks = [] \<and> err = None) \<and>
     (\<forall>c \<in> set chunks. dt_lt (fst c) (snd c)) \<and>
     (\<forall>i. Suc i < length chunks \<longrightarrow> snd (chunks ! i) = fst (chunks ! Suc i)) \<and>
     sorted_wrt dt_lt (map fst chunks) \<and>
     (chunks \<noteq> [] \<longrightarrow> fst (hd chunks) = start) \<and>
     (\<forall>c \<in> set chunks. month (fst c) = 12 \<and> dt_le (add_month_capped (fst c)) fin \<longrightarrow>
        year (snd c) = year (fst c) + 1 \<and> month (snd c) = 1 \<and>
        day (snd c) = min (day (fst c)) 28 \<and> hour (snd c) = hour (fst c)) \<and>
     (dt_lt start fin \<and> err = None \<longrightarrow> chunks \<noteq> [] \<and> snd (last chunks) = fin) \<and>
     (valid_datetime start \<and> dt_lt start fin \<longrightarrow>
        (err = None) = dt_le fin (final_chunk_start start) \<and>
        (err \<noteq> None \<longrightarrow>
           err = Some (Exn ''ValueError'' ''year 10000 is out of range'') \<and>
           year (reached start chunks) = 9999 \<and> month (reached start chunks) = 12 \<and>
           dt_lt (reached start chunks) fin))"
    by (intro conjI)
qed

lemma planned_winter:
  "generate_chunks (dt 2020 11 30 6) (dt 2021 2 1 0)
     = ([(dt 2020 11 30 6, dt 2020 12 28 6), (dt 2020 12 28 6, dt 2021 1 28 6),
         (dt 2021 1 28 6, dt 2021 2 1 0)], None)"
  by (simp add: generate_chunks.simps dt_eval Let_def)

theorem generate_chunks_sequence_witness:
  "\<not> dt_lt (dt 2021 3 1 0) (dt 2021 1 1 0) \<and>
   generate_chunks (dt 2021 3 1 0) (dt 2021 1 1 0) = ([], None) \<and>
   valid_datetime (dt 2020 11 30 6) \<and> dt_lt (dt 2020 11 30 6) (dt 2021 2 1 0) \<and>
   dt_le (dt 2021 2 1 0) (final_chunk_start (dt 2020 11 30 6)) \<and>
   snd (generate_chunks (dt 2020 11 30 6) (dt 2021 2 1 0)) = None \<and>
   snd (last (fst (generate_chunks (dt 2020 11 30 6) (dt 2021 2 1 0)))) = dt 2021 2 1 0 \<and>
   (dt 2020 12 28 6, dt 2021 1 28 6) \<in> set (fst (generate_chunks (dt 2020 11 30 6) (dt 2021 2 1 0))) \<and>
   month (dt 2020 12 28 6) = 12 \<and> dt_le (add_month_capped (dt 2020 12 28 6)) (dt 2021 2 1 0) \<and>
   year (dt 2021 1 28 6) = year (dt 2020 12 28 6) + 1 \<and> month (dt 2021 1 28 6) = 1 \<and>
   valid_datetime (dt 9999 12 1 0) \<and> dt_lt (dt 9999 12 1 0) (dt 9999 12 15 0) \<and>
   \<not> dt_le (dt 9999 12 15 0) (final_chunk_start (dt 9999 12 1 0)) \<and>
   snd (generate_chunks (dt 9999 12 1 0) (dt 9999 12 15 0))
     = Some (Exn ''ValueError'' ''year 10000 is out of range'')"
proof -
  let ?a = "dt 2021 3 1 0" and ?b = "dt 2021 1 1 0"
  let ?c = "dt 2020 11 30 6" and ?d = "dt 2021 2 1 0"
  let ?e = "dt 9999 12 1 0" and ?f = "dt 9999 12 15 0"
  have g: "generate_chunks x y = (fst (generate_chunks x y), snd (generate_chunks x y))" for x y
    by simp
  have h1: "\<not> dt_lt ?a ?b" by (simp add: dt_eval)
  have h2: "valid_datetime ?c" "dt_lt ?c ?d" "dt_le ?d (final_chunk_start ?c)"
    by (simp_all add: dt_eval final_chunk_start_def)
  have h3: "valid_datetime ?e" "dt_lt ?e ?f" "\<not> dt_le ?f (final_chunk_start ?e)"
    by (simp_all add: dt_eval final_chunk_start_def)
  have mem: "(dt 2020 12 28 6, dt 2021 1 28 6) \<in> set (fst (generate_chunks ?c ?d))"
    unfolding planned_winter by simp
  have dec: "month (dt 2020 12 28 6) = 12" "dt_le (add_month_capped (dt 2020 12 28 6)) ?d"
    by (simp_all add: dt_eval add_month_capped_def)
  note t1 = generate_chunks_sequence [of ?a ?b "fst (generate_chunks ?a ?b)"
      "snd (generate_chunks ?a ?b)"]
  note t2 = generate_chunks_sequence [of ?c ?d "fst (generate_chunks ?c ?d)"
      "snd (generate_chunks ?c ?d)"]
  note t3 = generate_chunks_sequence [of ?e ?f "fst (generate_chunks ?e ?f)"
      "snd (generate_chunks ?e ?f)"]
  from t1 g h1 have "fst (generate_chunks ?a ?b) = [] \<and> snd (generate_chunks ?a ?b) = None"
    by blast
  then have p1: "generate_chunks ?a ?b = ([], None)" by (simp add: prod_eq_iff)
  from t2 g h2 have n2: "snd (generate_chunks ?c ?d) = None" by blast
  with t2 g h2 have p2: "snd (last (fst (generate_chunks ?c ?d))) = ?d" by blast
  from t2 g have "\<forall>c \<in> set (fst (generate_chunks ?c ?d)).
      month (fst c) = 12 \<and> dt_le (add_month_capped (fst c)) ?d \<longrightarrow>
        year (snd c) = year (fst c) + 1 \<and> month (snd c) = 1 \<and>
        day (snd c) = min (day (fst c)) 28 \<and> hour (snd c) = hour (fst c)" by blast
  with mem dec have p3: "year (dt 2021 1 28 6) = year (dt 2020 12 28 6) + 1 \<and>
      month (dt 2021 1 28 6) = 1" by fastforce
  from t3 g h3 have n3: "snd (generate_chunks ?e ?f) \<noteq> None" by blast
  with t3 g h3 have p4: "snd (generate_chunks ?e ?f)
      = Some (Exn ''ValueError'' ''year 10000 is out of range'')" by blast
  from h1 p1 h2 n2 p2 mem dec p3 h3 p4 show ?thesis by blast
qed

text \<open>
  Claim C9 as stated fails for a domain inside December 9999: the year does not roll over,
  the generator raises \<^verbatim>\<open>ValueError\<close> and yields nothing.
\<close>

theorem generate_chunks_december_9999:
  "valid_datetime (dt 9999 12 1 0) \<and> valid_datetime (dt 9999 12 15 0) \<and>
   dt_lt (dt 9999 12 1 0) (dt 9999 12 15 0) \<and>
   generate_chunks (dt 9999 12 1 0) (dt 9999 12 15 0)
     = ([], Some (Exn ''ValueError'' ''year 10000 is out of range''))"
  by (simp add: generate_chunks.simps dt_eval Let_def str_nat.simps digit_def)

section \<open>Properties of the retry helper\<close>

lemma failures_then_retry_0 [simp]: "failures_then_retry errs delay a 0 = []"
  by (simp add: failures_then_retry_def)

lemma failures_then_retry_Suc:
  "failures_then_retry errs delay a (Suc k) =
     [AttemptFailed a (errs 0), RetryingIn delay, Sleep delay]
       @ failures_then_retry (\<lambda>i. errs (Suc i)) delay (a + 1) k"
proof -
  have "[0..<Suc k] = 0 # map Suc [0..<k]"
    by (simp add: upt_conv_Cons map_Suc_upt del: upt_Suc)
  then show ?thesis
    by (simp add: failures_then_retry_def comp_def add.assoc del: upt_Suc)
qed

lemma count_failures_then_retry:
  "length (filter is_failure_line (failures_then_retry errs delay a k)) = k"
  "length (filter is_sleep (failures_then_retry errs delay a k)) = k"
  "\<forall>ev \<in> set (filter is_sleep (failures_then_retry errs delay a k)). ev = Sleep delay"
  by (induction k arbitrary: errs a)
     (simp_all add: failures_then_retry_Suc is_failure_line_def is_sleep_def)

lemma retry_for_returns:
  "fst (func s) = Inr v \<Longrightarrow>
   retry_for func m delay (a # rest) (s, log) = (Inr (Some v), snd (func s), log)"
  by (cases "func s") auto

lemma retry_for_again:
  "fst (func s) = Inl e \<Longrightarrow> a < m \<Longrightarrow>
   retry_for func m delay (a # rest) (s, log)
     = retry_for func m delay rest
         (snd (func s), log @ [AttemptFailed a e, RetryingIn delay, Sleep delay])"
  by (cases "func s") auto

lemma retry_for_raises:
  "fst (func s) = Inl e \<Longrightarrow> \<not> a < m \<Longrightarrow>
   retry_for func m delay (a # rest) (s, log)
     = (Inl e, snd (func s), log @ [AttemptFailed a e])"
  by (cases "func s") auto

lemma retry_for_succeeds:
  assumes "\<forall>i<k. fst (func (after_calls func i s)) = Inl (errs i)"
    and "fst (func (after_calls func k s)) = Inr v"
    and "a + int k \<le> m"
  shows "retry_for func m delay [a..m] (s, log)
     = (Inr (Some v), after_calls func (Suc k) s, log @ failures_then_retry errs delay a k)"
  using assms
proof (induction k arbitrary: a s log errs)
  case 0
  then have "[a..m] = a # [a + 1..m]" by (simp add: upto_rec1)
  with 0 show ?case by (simp add: retry_for_returns del: retry_for.simps)
next
  case (Suc k)
  then have am: "a < m" by simp
  then have l: "[a..m] = a # [a + 1..m]" by (simp add: upto_rec1)
  from Suc.prems(1) have f0: "fst (func s) = Inl (errs 0)" by force
  have p1: "\<forall>i<k. fst (func (after_calls func i (snd (func s)))) = Inl (errs (Suc i))"
    using Suc.prems(1) by force
  have p2: "fst (func (after_calls func k (snd (func s)))) = Inr v"
    using Suc.prems(2) by simp
  have p3: "a + 1 + int k \<le> m" using Suc.prems(3) by simp
  have "retry_for func m delay [a..m] (s, log)
      = retry_for func m delay [a + 1..m]
          (snd (func s), log @ [AttemptFailed a (errs 0), RetryingIn delay, Sleep delay])"
    using f0 am by (simp add: l retry_for_again del: retry_for.simps)
  also have "\<dots> = (Inr (Some v), after_calls func (Suc k) (snd (func s)),
      (log @ [AttemptFailed a (errs 0), RetryingIn delay, Sleep delay])
        @ failures_then_retry (\<lambda>i. errs (Suc i)) delay (a + 1) k)"
    using p1 p2 p3 by (rule Suc.IH)
  finally show ?case by (simp add: failures_then_retry_Suc)
qed

lemma retry_for_exhausts:
  assumes "\<forall>i\<le>k. fst (func (after_calls func i s)) = Inl (errs i)"
    and "a + int k = m"
  shows "retry_for func m delay [a..m] (s, log)
     = (Inl (errs k), after_calls func (Suc k) s,
        log @ failures_then_retry errs delay a k @ [AttemptFailed m (errs k)])"
  using assms
proof (induction k arbitrary: a s log errs)
  case 0
  then have "[a..m] = a # [a + 1..m]" by (simp add: upto_rec1)
  with 0 show ?case by (simp add: retry_for_raises del: retry_for.simps)
next
  case (Suc k)
  then have am: "a < m" by simp
  then have l: "[a..m] = a # [a + 1..m]" by (simp add: upto_rec1)
  from Suc.prems(1) have f0: "fst (func s) = Inl (errs 0)" by force
  have p1: "\<forall>i\<le>k. fst (func (after_calls func i (snd (func s)))) = Inl (errs (Suc i))"
    using Suc.prems(1) by force
  have p3: "a + 1 + int k = m" using Suc.prems(2) by simp
  have "retry_for func m delay [a..m] (s, log)
      = retry_for func m delay [a + 1..m]
          (snd (func s), log @ [AttemptFailed a (errs 0), RetryingIn delay, Sleep delay])"
    using f0 am by (simp add: l retry_for_again del: retry_for.simps)
  also have "\<dots> = (Inl (errs (Suc k)), after_calls func (Suc k) (snd (func s)),
      (log @ [AttemptFailed a (errs 0), RetryingIn delay, Sleep delay])
        @ failures_then_retry (\<lambda>i. errs (Suc i)) delay (a + 1) k
        @ [AttemptFailed m (errs (Suc k))])"
    using p1 p3 by (rule Suc.IH)
  finally show ?case by (simp add: failures_then_retry_Suc)
qed

text \<open>
  Claim C4.  With \<open>max_attempts \<ge> 1\<close>: if the operation fails on its first
  \<open>k < max_attempts\<close> calls and then returns \<open>v\<close>, \<^verbatim>\<open>retry\<close> returns \<open>v\<close> after exactly
  \<open>k + 1\<close> calls, having printed exactly \<open>k\<close> failures, each followed by one sleep of the
  fixed delay; if the operation fails on each of its first \<open>max_attempts\<close> calls, \<^verbatim>\<open>retry\<close>
  makes exactly \<open>max_attempts\<close> calls and raises the exception of the last one as it is,
  having slept \<open>max_attempts - 1\<close> times, never after the last attempt.
\<close>

theorem retry_contract:
  assumes "1 \<le> max_attempts"
  shows "(int k < max_attempts \<and> (\<forall>i<k. fst (func (after_calls func i s)) = Inl (errs i)) \<and>
          fst (func (after_calls func k s)) = Inr v \<longrightarrow>
            retry func max_attempts delay (s, log)
              = (Inr (Some v), after_calls func (Suc k) s, log @ failures_then_retry errs delay 1 k) \<and>
            length (filter is_failure_line (failures_then_retry errs delay 1 k)) = k \<and>
            length (filter is_sleep (failures_then_retry errs delay 1 k)) = k)
       \<and> ((\<forall>i < nat max_attempts. fst (func (after_calls func i s)) = Inl (errs i)) \<longrightarrow>
            retry func max_attempts delay (s, log)
              = (Inl (errs (nat max_attempts - 1)), after_calls func (nat max_attempts) s,
                 log @ failures_then_retry errs delay 1 (nat max_attempts - 1)
                     @ [AttemptFailed max_attempts (errs (nat max_attempts - 1))]) \<and>
            length (filter is_sleep (failures_then_retry errs delay 1 (nat max_attempts - 1)
                     @ [AttemptFailed max_attempts (errs (nat max_attempts - 1))]))
              = nat max_attempts - 1)"
proof (intro conjI impI)
  assume a: "int k < max_attempts \<and> (\<forall>i<k. fst (func (after_calls func i s)) = Inl (errs i)) \<and>
      fst (func (after_calls func k s)) = Inr v"
  then have "1 + int k \<le> max_attempts" by simp
  with a show "retry func max_attempts delay (s, log)
      = (Inr (Some v), after_calls func (Suc k) s, log @ failures_then_retry errs delay 1 k)"
    unfolding retry_def by (intro retry_for_succeeds) auto
  show "length (filter is_failure_line (failures_then_retry errs delay 1 k)) = k"
    by (rule count_failures_then_retry)
  show "length (filter is_sleep (failures_then_retry errs delay 1 k)) = k"
    by (rule count_failures_then_retry)
next
  assume a: "\<forall>i < nat max_attempts. fst (func (after_calls func i s)) = Inl (errs i)"
  define k where "k = nat max_attempts - 1"
  from assms have m: "nat max_attempts = Suc k" and mk: "1 + int k = max_attempts"
    by (simp_all add: k_def)
  from a m have "\<forall>i\<le>k. fst (func (after_calls func i s)) = Inl (errs i)" by simp
  then have "retry_for func max_attempts delay [1..max_attempts] (s, log)
     = (Inl (errs k), after_calls func (Suc k) s,
        log @ failures_then_retry errs delay 1 k @ [AttemptFailed max_attempts (errs k)])"
    using mk by (rule retry_for_exhausts)
  then show "retry func max_attempts delay (s, log)
      = (Inl (errs (nat max_attempts - 1)), after_calls func (nat max_attempts) s,
         log @ failures_then_retry errs delay 1 (nat max_attempts - 1)
             @ [AttemptFailed max_attempts (errs (nat max_attempts - 1))])"
    unfolding retry_def m by (simp add: k_def [symmetric] m del: after_calls.simps)
  show "length (filter is_sleep (failures_then_retry errs delay 1 (nat max_attempts - 1)
                     @ [AttemptFailed max_attempts (errs (nat max_attempts - 1))]))
              = nat max_attempts - 1"
    by (simp add: count_failures_then_retry is_sleep_def)
qed

theorem retry_contract_witness:
  "(1::int) \<le> 3 \<and>
   retry (flaky 2) 3 10 (0, [])
     = (Inr (Some 2), 3,
        [AttemptFailed 1 (Exn ''ConnectionError'' ''0''), RetryingIn 10, Sleep 10,
         AttemptFailed 2 (Exn ''ConnectionError'' ''1''), RetryingIn 10, Sleep 10]) \<and>
   retry (flaky 5) 3 10 (0, [])
     = (Inl (Exn ''ConnectionError'' ''2''), 3,
        [AttemptFailed 1 (Exn ''ConnectionError'' ''0''), RetryingIn 10, Sleep 10,
         AttemptFailed 2 (Exn ''ConnectionError'' ''1''), RetryingIn 10, Sleep 10,
         AttemptFailed 3 (Exn ''ConnectionError'' ''2'')])"
proof -
  have h: "(1::int) \<le> 3" by simp
  have ac: "after_calls (flaky n) i s = s + i" for n i s
    by (induction i arbitrary: s) (simp_all add: flaky_def)
  have e: "failures_then_retry (\<lambda>i. Exn ''ConnectionError'' (str_nat i)) 10 1 2
      = [AttemptFailed 1 (Exn ''ConnectionError'' ''0''), RetryingIn 10, Sleep 10,
         AttemptFailed 2 (Exn ''ConnectionError'' ''1''), RetryingIn 10, Sleep 10]"
    by (simp add: failures_then_retry_def numeral_2_eq_2 str_nat.simps digit_def)
  have s1: "int 2 < 3 \<and>
      (\<forall>i<2. fst (flaky 2 (after_calls (flaky 2) i 0)) = Inl (Exn ''ConnectionError'' (str_nat i))) \<and>
      fst (flaky 2 (after_calls (flaky 2) 2 0)) = Inr 2"
    by (simp add: ac flaky_def)
  have s2: "\<forall>i < nat 3. fst (flaky 5 (after_calls (flaky 5) i 0))
      = Inl (Exn ''ConnectionError'' (str_nat i))"
    by (simp add: ac flaky_def)
  from retry_contract [OF h, of 2 "flaky 2" 0 "\<lambda>i. Exn ''ConnectionError'' (str_nat i)" 2 10 "[]"] s1
  have r1: "retry (flaky 2) 3 10 (0, [])
     = (Inr (Some 2), after_calls (flaky 2) (Suc 2) 0,
        [] @ failures_then_retry (\<lambda>i. Exn ''ConnectionError'' (str_nat i)) 10 1 2)"
    by blast
  from retry_contract [OF h, of 0 "flaky 5" 0 "\<lambda>i. Exn ''ConnectionError'' (str_nat i)" 0 10 "[]"] s2
  have r2: "retry (flaky 5) 3 10 (0, [])
     = (Inl (Exn ''ConnectionError'' (str_nat (nat 3 - 1))), after_calls (flaky 5) (nat 3) 0,
        [] @ failures_then_retry (\<lambda>i. Exn ''ConnectionError'' (str_nat i)) 10 1 (nat 3 - 1)
           @ [AttemptFailed 3 (Exn ''ConnectionError'' (str_nat (nat 3 - 1)))])"
    by blast
  have n: "nat 3 - 1 = 2" by simp
  have sn: "str_nat 2 = ''2''" by (simp add: str_nat.simps digit_def)
  show ?thesis
    using h r1 r2 by (simp add: ac e n sn del: after_calls.simps)
qed

section \<open>Facts about the retry helper and the external operations\<close>

lemma grows_refl [simp]: "grows F D B s s"
  by (simp add: grows_def)

lemma grows_trans: "grows F D B s s1 \<Longrightarrow> grows F D B s1 s2 \<Longrightarrow> grows F D B s s2"
  unfolding grows_def by (elim conjE exE) (auto simp: image_Un)

lemma grows_mono:
  assumes "grows F D B s s'" and "F \<subseteq> F'" and "D \<subseteq> D'" and "B \<subseteq> B'"
  shows "grows F' D' B' s s'"
proof -
  from assms(1) obtain cs where cs: "calls s' = calls s @ cs" "fst ` set cs \<subseteq> F"
    and r: "replies s' = replies s" "source s' = source s"
    and d: "disk s \<subseteq> disk s'" "disk s' \<subseteq> disk s \<union> D"
    and b: "bucket s \<subseteq> bucket s'" "bucket s' \<subseteq> bucket s \<union> B"
    unfolding grows_def by auto
  from cs(2) assms(2) have "fst ` set cs \<subseteq> F'" by (rule subset_trans)
  with cs(1) have c: "\<exists>cs. calls s' = calls s @ cs \<and> fst ` set cs \<subseteq> F'" by auto
  from d(2) assms(3) have d': "disk s' \<subseteq> disk s \<union> D'" by auto
  from b(2) assms(4) have b': "bucket s' \<subseteq> bucket s \<union> B'" by auto
  show ?thesis unfolding grows_def using r c d(1) d' b(1) b' by simp
qed

lemma retry_for_sound:
  assumes "retry_for func m d as (s, log) = (res, s', log')"
    and step: "\<And>s r s1. func s = (r, s1) \<Longrightarrow> R s s1"
    and refl: "\<And>s. R s s"
    and trans: "\<And>a b c. R a b \<Longrightarrow> R b c \<Longrightarrow> R a c"
  shows "R s s' \<and> (\<exists>evs. log' = log @ evs \<and> (\<forall>ev \<in> set evs. is_retry_event ev)) \<and>
         (\<forall>v. res = Inr (Some v) \<longrightarrow> (\<exists>s0. R s s0 \<and> func s0 = (Inr v, s'))) \<and>
         (\<forall>e. res = Inl e \<longrightarrow> (\<exists>s0. R s s0 \<and> func s0 = (Inl e, s')))"
  using assms(1)
proof (induction as arbitrary: s log)
  case Nil
  then show ?case using refl by auto
next
  case (Cons a as)
  obtain r s1 where f: "func s = (r, s1)" by (cases "func s")
  then have R1: "R s s1" by (rule step)
  show ?case
  proof (cases r)
    case (Inr v)
    with f Cons.prems have "res = Inr (Some v)" "s' = s1" "log' = log" by auto
    with f Inr R1 refl show ?thesis by auto
  next
    case (Inl e)
    show ?thesis
    proof (cases "a < m")
      case True
      with f Inl Cons.prems
      have "retry_for func m d as (s1, log @ [AttemptFailed a e, RetryingIn d, Sleep d])
          = (res, s', log')" by simp
      from Cons.IH [OF this]
      have IH: "R s1 s'" "\<exists>evs. log' = (log @ [AttemptFailed a e, RetryingIn d, Sleep d]) @ evs
            \<and> (\<forall>ev \<in> set evs. is_retry_event ev)"
        "\<forall>v. res = Inr (Some v) \<longrightarrow> (\<exists>s0. R s1 s0 \<and> func s0 = (Inr v, s'))"
        "\<forall>e. res = Inl e \<longrightarrow> (\<exists>s0. R s1 s0 \<and> func s0 = (Inl e, s'))"
        by blast+
      from IH(2) obtain evs where evs: "log' = log @ [AttemptFailed a e, RetryingIn d, Sleep d] @ evs"
        "\<forall>ev \<in> set evs. is_retry_event ev" by auto
      have "\<forall>ev \<in> set ([AttemptFailed a e, RetryingIn d, Sleep d] @ evs). is_retry_event ev"
        using evs(2) by (simp add: is_retry_event_def)
      with evs(1) have L: "\<exists>evs. log' = log @ evs \<and> (\<forall>ev \<in> set evs. is_retry_event ev)"
        by blast
      from R1 IH(1) have "R s s'" by (rule trans)
      moreover from IH(3) R1 have "\<forall>v. res = Inr (Some v) \<longrightarrow> (\<exists>s0. R s s0 \<and> func s0 = (Inr v, s'))"
        by (blast intro: trans)
      moreover from IH(4) R1 have "\<forall>e. res = Inl e \<longrightarrow> (\<exists>s0. R s s0 \<and> func s0 = (Inl e, s'))"
        by (blast intro: trans)
      ultimately show ?thesis using L by blast
    next
      case False
      with f Inl Cons.prems have "res = Inl e" "s' = s1" "log' = log @ [AttemptFailed a e]"
        by auto
      with f Inl R1 refl show ?thesis by (auto simp: is_retry_event_def)
    qed
  qed
qed

lemma retry_for_upto_some:
  "a \<le> m \<Longrightarrow> fst (retry_for func m d [a..m] (s, log)) \<noteq> Inr None"
proof (induction "nat (m - a)" arbitrary: a s log)
  case 0
  then have am: "\<not> a < m" by simp
  from 0 have l: "[a..m] = a # [a + 1..m]" by (intro upto_rec1)
  obtain r s1 where f: "func s = (r, s1)" by (cases "func s")
  show ?case
  proof (cases r)
    case (Inr v)
    with f show ?thesis unfolding l by simp
  next
    case (Inl e)
    with f am show ?thesis unfolding l by simp
  qed
next
  case (Suc n)
  then have am: "a < m" by simp
  from Suc have l: "[a..m] = a # [a + 1..m]" by (intro upto_rec1)
  have n: "n = nat (m - (a + 1))" using Suc.hyps(2) by simp
  have le: "a + 1 \<le> m" using am by simp
  obtain r s1 where f: "func s = (r, s1)" by (cases "func s")
  show ?case
  proof (cases r)
    case (Inr v)
    with f show ?thesis unfolding l by simp
  next
    case (Inl e)
    with f am have "retry_for func m d (a # [a + 1..m]) (s, log)
        = retry_for func m d [a + 1..m] (s1, log @ [AttemptFailed a e, RetryingIn d, Sleep d])"
      by simp
    with Suc.hyps(1) [OF n le] show ?thesis unfolding l by simp
  qed
qed

lemma retry_not_none:
  assumes "1 \<le> m"
  shows "retry func m d (s, log) \<noteq> (Inr None, st')"
proof
  assume "retry func m d (s, log) = (Inr None, st')"
  then have "fst (retry_for func m d [1..m] (s, log)) = Inr None"
    by (simp add: retry_def)
  with retry_for_upto_some [OF assms, of func d s log] show False by simp
qed

lemma retry_sound:
  assumes "retry func m d (s, log) = (res, s', log')"
    and "\<And>s r s1. func s = (r, s1) \<Longrightarrow> R s s1"
    and "\<And>s. R s s"
    and "\<And>a b c. R a b \<Longrightarrow> R b c \<Longrightarrow> R a c"
  shows "R s s' \<and> (\<exists>evs. log' = log @ evs \<and> (\<forall>ev \<in> set evs. is_retry_event ev)) \<and>
         (\<forall>v. res = Inr (Some v) \<longrightarrow> (\<exists>s0. R s s0 \<and> func s0 = (Inr v, s'))) \<and>
         (\<forall>e. res = Inl e \<longrightarrow> (\<exists>s0. R s s0 \<and> func s0 = (Inl e, s')))"
proof (rule retry_for_sound [where R = R and func = func and m = m and d = d and as = "[1..m]"])
  show "retry_for func m d [1..m] (s, log) = (res, s', log')"
    using assms(1) by (simp add: retry_def)
qed (fact assms(2-4))+

lemma quiet_retry:
  assumes "\<forall>ev \<in> set evs. is_retry_event ev"
  shows "attempted_chunks evs = []" and "skipped_chunks evs = []"
    and "attempted_files evs = []" and "skipped_files evs = []" and "reported_errors evs = []"
  using assms
  by (induction evs)
     (auto simp: attempted_chunks_def skipped_chunks_def attempted_files_def skipped_files_def
        reported_errors_def is_retry_event_def split: event.splits)

lemma log_append [simp]:
  "attempted_chunks (a @ b) = attempted_chunks a @ attempted_chunks b"
  "skipped_chunks (a @ b) = skipped_chunks a @ skipped_chunks b"
  "attempted_files (a @ b) = attempted_files a @ attempted_files b"
  "skipped_files (a @ b) = skipped_files a @ skipped_files b"
  "reported_errors (a @ b) = reported_errors a @ reported_errors b"
  by (simp_all add: attempted_chunks_def skipped_chunks_def attempted_files_def
      skipped_files_def reported_errors_def)

lemma ledger_writes_append [simp]: "ledger_writes (a @ b) = ledger_writes a @ ledger_writes b"
  by (simp add: ledger_writes_def)

lemma ledger_writes_none: "fst ` set cs \<subseteq> F \<Longrightarrow> WriteLedger \<notin> F \<Longrightarrow> ledger_writes cs = []"
  unfolding ledger_writes_def by (induction cs) auto

text \<open>The three retried steps of the Copernicus loop, each as a fact about \<open>retry\<close>.\<close>

lemma retry_step:
  assumes run: "retry func 3 10 (s, log) = (res, s', log')"
    and step: "\<forall>s r s1. func s = (r, s1) \<longrightarrow> grows F D B s s1"
  shows "grows F D B s s'"
    and "\<exists>evs. log' = log @ evs \<and> (\<forall>ev \<in> set evs. is_retry_event ev)"
    and "res \<noteq> Inr None"
    and "res = Inr (Some v) \<Longrightarrow> \<exists>s0. grows F D B s s0 \<and> func s0 = (Inr v, s')"
    and "res = Inl e \<Longrightarrow> \<exists>s0. grows F D B s s0 \<and> func s0 = (Inl e, s')"
proof -
  have all: "grows F D B s s' \<and> (\<exists>evs. log' = log @ evs \<and> (\<forall>ev \<in> set evs. is_retry_event ev)) \<and>
         (\<forall>v. res = Inr (Some v) \<longrightarrow> (\<exists>s0. grows F D B s s0 \<and> func s0 = (Inr v, s'))) \<and>
         (\<forall>e. res = Inl e \<longrightarrow> (\<exists>s0. grows F D B s s0 \<and> func s0 = (Inl e, s')))"
    using run
  proof (rule retry_sound [where R = "grows F D B"])
    show "\<And>s r s1. func s = (r, s1) \<Longrightarrow> grows F D B s s1" using step by blast
    show "\<And>s. grows F D B s s" by simp
    show "\<And>a b c. grows F D B a b \<Longrightarrow> grows F D B b c \<Longrightarrow> grows F D B a c"
      by (rule grows_trans)
  qed
  from all show "grows F D B s s'" by blast
  from all show "\<exists>evs. log' = log @ evs \<and> (\<forall>ev \<in> set evs. is_retry_event ev)" by blast
  from all show "res = Inr (Some v) \<Longrightarrow> \<exists>s0. grows F D B s s0 \<and> func s0 = (Inr v, s')" by blast
  from all show "res = Inl e \<Longrightarrow> \<exists>s0. grows F D B s s0 \<and> func s0 = (Inl e, s')" by blast
  show "res \<noteq> Inr None"
    using run retry_not_none [of 3 func 10 s log "(s', log')"] by auto
qed

lemma call_facts:
  assumes "call f arg s = (rep, s1)"
  shows "calls s1 = calls s @ [(f, arg, rep)]" "replies s1 = replies s" "source s1 = source s"
    "disk s1 = disk s" "bucket s1 = bucket s" "rep = replies s (clock s)"
    "clock s1 = Suc (clock s)"
  using assms by (auto simp: call_def Let_def)

lemma failure_None [simp]: "(failure rep = None) = (rep = Done)"
  by (cases rep) (simp_all add: failure_def)

lemma open_dataset_facts:
  assumes "open_dataset c s = (r, s1)"
  shows "grows {OpenDataset} {} {} s s1 \<and>
     (\<exists>rep. calls s1 = calls s @ [(OpenDataset, chunk_name c, rep)] \<and>
        (\<forall>v. r = Inr v \<longrightarrow> rep = Done \<and> True))"
proof -
  obtain rep s0 where c: "call OpenDataset (chunk_name c) s = (rep, s0)"
    by (cases "call OpenDataset (chunk_name c) s")
  note f = call_facts [OF c]
  from assms c have s1: "s1 = s0" and r: "\<forall>v. r = Inr v \<longrightarrow> rep = Done"
    by (auto simp: open_dataset_def split: option.splits)
  show ?thesis unfolding s1 using f r by (simp add: grows_def)
qed

lemma ds_chunk_facts:
  assumes "ds_chunk ds s = (r, s1)"
  shows "replies s1 = replies s" "source s1 = source s" "disk s1 = disk s" "bucket s1 = bucket s"
    "\<exists>rep. calls s1 = calls s @ [(DsChunk, chunk_name ds, rep)] \<and>
       (\<forall>v. r = Inr v \<longrightarrow> rep = Done)"
proof -
  obtain rep s0 where c: "call DsChunk (chunk_name ds) s = (rep, s0)"
    by (cases "call DsChunk (chunk_name ds) s")
  note f = call_facts [OF c]
  from assms c have s1: "s1 = s0" and r: "\<forall>v. r = Inr v \<longrightarrow> rep = Done"
    by (auto simp: ds_chunk_def split: option.splits)
  from f show "replies s1 = replies s" "source s1 = source s" "disk s1 = disk s"
    "bucket s1 = bucket s" unfolding s1 by simp_all
  from f r show "\<exists>rep. calls s1 = calls s @ [(DsChunk, chunk_name ds, rep)] \<and>
       (\<forall>v. r = Inr v \<longrightarrow> rep = Done)" unfolding s1 by simp
qed

lemma to_netcdf_facts:
  assumes "to_netcdf p s = (r, s1)"
  shows "grows {ToNetcdf} {p} {} s s1 \<and>
     (\<exists>rep. calls s1 = calls s @ [(ToNetcdf, p, rep)] \<and>
        (\<forall>v. r = Inr v \<longrightarrow> rep = Done \<and> p \<in> disk s1))"
proof -
  obtain rep s0 where c: "call ToNetcdf p s = (rep, s0)"
    by (cases "call ToNetcdf p s")
  note f = call_facts [OF c]
  from assms c have "calls s1 = calls s0" "replies s1 = replies s0" "source s1 = source s0"
    "bucket s1 = bucket s0" "disk s0 \<subseteq> disk s1" "disk s1 \<subseteq> insert p (disk s0)"
    "\<forall>v. r = Inr v \<longrightarrow> rep = Done \<and> p \<in> disk s1"
    by (auto simp: to_netcdf_def split: option.splits if_splits)
  with f show ?thesis by (auto simp: grows_def)
qed

lemma upload_file_facts:
  assumes "upload_file p k s = (r, s1)"
  shows "grows {UploadFile} {} {k} s s1 \<and>
     (\<exists>rep. calls s1 = calls s @ [(UploadFile, k, rep)] \<and>
        (\<forall>v. r = Inr v \<longrightarrow> rep = Done \<and> k \<in> bucket s1))"
proof -
  obtain rep s0 where c: "call UploadFile k s = (rep, s0)"
    by (cases "call UploadFile k s")
  note f = call_facts [OF c]
  from assms c have "calls s1 = calls s0" "replies s1 = replies s0" "source s1 = source s0"
    "disk s1 = disk s0" "bucket s0 \<subseteq> bucket s1" "bucket s1 \<subseteq> insert k (bucket s0)"
    "\<forall>v. r = Inr v \<longrightarrow> rep = Done \<and> k \<in> bucket s1"
    by (auto simp: upload_file_def split: option.splits if_splits)
  with f show ?thesis by (auto simp: grows_def)
qed

lemma os_remove_facts:
  assumes "os_remove p s = (r, s1)"
  shows "replies s1 = replies s" "source s1 = source s" "bucket s1 = bucket s"
    "r = Inr u \<Longrightarrow> calls s1 = calls s @ [(OsRemove, p, Done)] \<and> disk s1 = disk s - {p}"
    "r = Inl e \<Longrightarrow> disk s1 = disk s \<and>
       (\<exists>cs. calls s1 = calls s @ cs \<and> fst ` set cs \<subseteq> {OsRemove})"
proof -
  obtain rep s0 where c: "call OsRemove p s = (rep, s0)"
    by (cases "call OsRemove p s")
  note f = call_facts [OF c]
  from assms c have alt: "(s1 = s \<and> (\<exists>e. r = Inl e)) \<or> (s1 = s0 \<and> (\<exists>e. r = Inl e)) \<or>
      (s1 = s0\<lparr>disk := disk s0 - {p}\<rparr> \<and> rep = Done \<and> r = Inr ())"
    by (auto simp: os_remove_def split: option.splits if_splits)
  from alt f show "replies s1 = replies s" by auto
  from alt f show "source s1 = source s" by auto
  from alt f show "bucket s1 = bucket s" by auto
  from alt f show "r = Inr u \<Longrightarrow> calls s1 = calls s @ [(OsRemove, p, Done)] \<and> disk s1 = disk s - {p}"
    by auto
  from alt f show "r = Inl e \<Longrightarrow> disk s1 = disk s \<and>
       (\<exists>cs. calls s1 = calls s @ cs \<and> fst ` set cs \<subseteq> {OsRemove})"
    by auto
qed

lemma save_log_facts:
  assumes "save_log w = (r, w1)"
  shows "out w1 = out w" "completed_chunks w1 = completed_chunks w"
    "replies (sys w1) = replies (sys w)" "source (sys w1) = source (sys w)"
    "bucket (sys w1) = bucket (sys w)" "disk (sys w1) = disk (sys w)"
    "\<exists>rep. calls (sys w1) = calls (sys w) @ [(WriteLedger, log_file_name, rep)] \<and>
       (case r of Inr u \<Rightarrow> rep = Done \<and> log_file w1 = Content (completed_chunks w)
        | Inl e \<Rightarrow> failure rep = Some e \<and> (log_file w1 = log_file w \<or> log_file w1 = Garbled))"
proof -
  obtain rep s0 where c: "call WriteLedger log_file_name (sys w) = (rep, s0)"
    by (cases "call WriteLedger log_file_name (sys w)")
  note f = call_facts [OF c]
  from assms c have alt:
    "(r = Inr () \<and> rep = Done \<and> w1 = w\<lparr>sys := s0, log_file := Content (completed_chunks w)\<rparr>) \<or>
     (\<exists>e. r = Inl e \<and> failure rep = Some e \<and>
        (w1 = w\<lparr>sys := s0\<rparr> \<or> w1 = w\<lparr>sys := s0, log_file := Garbled\<rparr>))"
    by (auto simp: save_log_def split: option.splits if_splits)
  from alt show "out w1 = out w" by auto
  from alt show "completed_chunks w1 = completed_chunks w" by auto
  from alt f show "replies (sys w1) = replies (sys w)" by auto
  from alt f show "source (sys w1) = source (sys w)" by auto
  from alt f show "bucket (sys w1) = bucket (sys w)" by auto
  from alt f show "disk (sys w1) = disk (sys w)" by auto
  from alt f show "\<exists>rep. calls (sys w1) = calls (sys w) @ [(WriteLedger, log_file_name, rep)] \<and>
       (case r of Inr u \<Rightarrow> rep = Done \<and> log_file w1 = Content (completed_chunks w)
        | Inl e \<Rightarrow> failure rep = Some e \<and> (log_file w1 = log_file w \<or> log_file w1 = Garbled))"
    by auto
qed

lemma retry_calls:
  assumes run: "retry func 3 10 (s, log) = (res, s', log')"
    and step: "\<forall>s r s1. func s = (r, s1) \<longrightarrow> grows {f} D B s s1 \<and>
        (\<exists>rep. calls s1 = calls s @ [(f, arg, rep)] \<and> (\<forall>v. r = Inr v \<longrightarrow> rep = Done \<and> Q s1))"
  shows "replies s' = replies s" "source s' = source s"
    "disk s \<subseteq> disk s'" "disk s' \<subseteq> disk s \<union> D" "bucket s \<subseteq> bucket s'" "bucket s' \<subseteq> bucket s \<union> B"
    "\<exists>cs. calls s' = calls s @ cs \<and> fst ` set cs \<subseteq> {f} \<and>
       (\<forall>v. res = Inr v \<longrightarrow> (f, arg, Done) \<in> set cs)"
    "\<exists>evs. log' = log @ evs \<and> (\<forall>ev \<in> set evs. is_retry_event ev)"
    "\<forall>v. res = Inr v \<longrightarrow> Q s'"
    "res \<noteq> Inr None"
proof -
  have st: "\<forall>s r s1. func s = (r, s1) \<longrightarrow> grows {f} D B s s1"
    using step by blast
  note rs = retry_step [where func = func and F = "{f}" and D = D and B = B, OF run st]
  from rs(1) show "replies s' = replies s" "source s' = source s"
    "disk s \<subseteq> disk s'" "disk s' \<subseteq> disk s \<union> D" "bucket s \<subseteq> bucket s'" "bucket s' \<subseteq> bucket s \<union> B"
    by (simp_all add: grows_def)
  from rs(2) show "\<exists>evs. log' = log @ evs \<and> (\<forall>ev \<in> set evs. is_retry_event ev)" .
  from rs(3) show "res \<noteq> Inr None" .
  from rs(1) obtain cs where cs: "calls s' = calls s @ cs" "fst ` set cs \<subseteq> {f}"
    by (auto simp: grows_def)
  have ok: "(f, arg, Done) \<in> set cs \<and> Q s'" if "res = Inr v" for v
  proof -
    from that rs(3) obtain x where x: "res = Inr (Some x)" by (cases v) auto
    from rs(4) [OF x] obtain s0 where s0: "grows {f} D B s s0" "func s0 = (Inr x, s')"
      by blast
    from s0(1) obtain cs0 where cs0: "calls s0 = calls s @ cs0" by (auto simp: grows_def)
    from step s0(2) have "calls s' = calls s0 @ [(f, arg, Done)]" and q: "Q s'" by auto
    with cs0 cs(1) have "cs = cs0 @ [(f, arg, Done)]" by simp
    with q show ?thesis by simp
  qed
  with cs show "\<exists>cs. calls s' = calls s @ cs \<and> fst ` set cs \<subseteq> {f} \<and>
       (\<forall>v. res = Inr v \<longrightarrow> (f, arg, Done) \<in> set cs)" by blast
  from ok show "\<forall>v. res = Inr v \<longrightarrow> Q s'" by blast
qed

lemma retry_open_dataset:
  assumes "retry (open_dataset c) 3 10 (s, log) = (res, s', log')"
  shows "replies s' = replies s" "source s' = source s" "disk s' = disk s" "bucket s' = bucket s"
    "\<exists>cs. calls s' = calls s @ cs \<and> fst ` set cs \<subseteq> {OpenDataset} \<and>
       (\<forall>v. res = Inr v \<longrightarrow> (OpenDataset, chunk_name c, Done) \<in> set cs)"
    "\<exists>evs. log' = log @ evs \<and> (\<forall>ev \<in> set evs. is_retry_event ev)"
    "res \<noteq> Inr None"
proof -
  have st: "\<forall>s r s1. open_dataset c s = (r, s1) \<longrightarrow> grows {OpenDataset} {} {} s s1 \<and>
        (\<exists>rep. calls s1 = calls s @ [(OpenDataset, chunk_name c, rep)] \<and>
           (\<forall>v. r = Inr v \<longrightarrow> rep = Done \<and> True))"
    by (intro allI impI open_dataset_facts)
  note rc = retry_calls [where func = "open_dataset c" and f = OpenDataset
      and arg = "chunk_name c" and D = "{}" and B = "{}" and Q = "\<lambda>s. True", OF assms st]
  from rc(1) show "replies s' = replies s" .
  from rc(2) show "source s' = source s" .
  from rc(3,4) show "disk s' = disk s" by auto
  from rc(5,6) show "bucket s' = bucket s" by auto
  from rc(7) show "\<exists>cs. calls s' = calls s @ cs \<and> fst ` set cs \<subseteq> {OpenDataset} \<and>
       (\<forall>v. res = Inr v \<longrightarrow> (OpenDataset, chunk_name c, Done) \<in> set cs)" .
  from rc(8) show "\<exists>evs. log' = log @ evs \<and> (\<forall>ev \<in> set evs. is_retry_event ev)" .
  from rc(10) show "res \<noteq> Inr None" .
qed

lemma retry_to_netcdf:
  assumes "retry (to_netcdf p) 3 10 (s, log) = (res, s', log')"
  shows "replies s' = replies s" "source s' = source s" "disk s \<subseteq> disk s'"
    "disk s' \<subseteq> insert p (disk s)" "bucket s' = bucket s"
    "\<exists>cs. calls s' = calls s @ cs \<and> fst ` set cs \<subseteq> {ToNetcdf} \<and>
       (\<forall>v. res = Inr v \<longrightarrow> (ToNetcdf, p, Done) \<in> set cs)"
    "\<exists>evs. log' = log @ evs \<and> (\<forall>ev \<in> set evs. is_retry_event ev)"
    "\<forall>v. res = Inr v \<longrightarrow> p \<in> disk s'"
proof -
  have st: "\<forall>s r s1. to_netcdf p s = (r, s1) \<longrightarrow> grows {ToNetcdf} {p} {} s s1 \<and>
        (\<exists>rep. calls s1 = calls s @ [(ToNetcdf, p, rep)] \<and>
           (\<forall>v. r = Inr v \<longrightarrow> rep = Done \<and> p \<in> disk s1))"
    by (intro allI impI to_netcdf_facts)
  note rc = retry_calls [where func = "to_netcdf p" and f = ToNetcdf
      and arg = p and D = "{p}" and B = "{}" and Q = "\<lambda>s. p \<in> disk s", OF assms st]
  from rc(1) show "replies s' = replies s" .
  from rc(2) show "source s' = source s" .
  from rc(3) show "disk s \<subseteq> disk s'" .
  from rc(4) show "disk s' \<subseteq> insert p (disk s)" by simp
  from rc(5,6) show "bucket s' = bucket s" by auto
  from rc(7) show "\<exists>cs. calls s' = calls s @ cs \<and> fst ` set cs \<subseteq> {ToNetcdf} \<and>
       (\<forall>v. res = Inr v \<longrightarrow> (ToNetcdf, p, Done) \<in> set cs)" .
  from rc(8) show "\<exists>evs. log' = log @ evs \<and> (\<forall>ev \<in> set evs. is_retry_event ev)" .
  from rc(9) show "\<forall>v. res = Inr v \<longrightarrow> p \<in> disk s'" .
qed

lemma retry_upload_file:
  assumes "retry (upload_file p k) 3 10 (s, log) = (res, s', log')"
  shows "replies s' = replies s" "source s' = source s" "disk s' = disk s"
    "bucket s \<subseteq> bucket s'" "bucket s' \<subseteq> insert k (bucket s)"
    "\<exists>cs. calls s' = calls s @ cs \<and> fst ` set cs \<subseteq> {UploadFile} \<and>
       (\<forall>v. res = Inr v \<longrightarrow> (UploadFile, k, Done) \<in> set cs)"
    "\<exists>evs. log' = log @ evs \<and> (\<forall>ev \<in> set evs. is_retry_event ev)"
    "\<forall>v. res = Inr v \<longrightarrow> k \<in> bucket s'"
proof -
  have st: "\<forall>s r s1. upload_file p k s = (r, s1) \<longrightarrow> grows {UploadFile} {} {k} s s1 \<and>
        (\<exists>rep. calls s1 = calls s @ [(UploadFile, k, rep)] \<and>
           (\<forall>v. r = Inr v \<longrightarrow> rep = Done \<and> k \<in> bucket s1))"
    by (intro allI impI upload_file_facts)
  note rc = retry_calls [where func = "upload_file p k" and f = UploadFile
      and arg = k and D = "{}" and B = "{k}" and Q = "\<lambda>s. k \<in> bucket s", OF assms st]
  from rc(1) show "replies s' = replies s" .
  from rc(2) show "source s' = source s" .
  from rc(3,4) show "disk s' = disk s" by auto
  from rc(5) show "bucket s \<subseteq> bucket s'" .
  from rc(6) show "bucket s' \<subseteq> insert k (bucket s)" by simp
  from rc(7) show "\<exists>cs. calls s' = calls s @ cs \<and> fst ` set cs \<subseteq> {UploadFile} \<and>
       (\<forall>v. res = Inr v \<longrightarrow> (UploadFile, k, Done) \<in> set cs)" .
  from rc(8) show "\<exists>evs. log' = log @ evs \<and> (\<forall>ev \<in> set evs. is_retry_event ev)" .
  from rc(9) show "\<forall>v. res = Inr v \<longrightarrow> k \<in> bucket s'" .
qed

section \<open>One pass of the Copernicus loop body\<close>

lemma process_chunk_skip:
  "chunk_name c \<in> set (completed_chunks w) \<Longrightarrow>
   process_chunk c w = (None, w\<lparr>out := out w @ [SkippingChunk (chunk_name c)]\<rparr>)"
  by (simp add: process_chunk_def printed_def)

text \<open>The ways a pass over a chunk that is not skipped can end, with the steps that led there.\<close>

lemma process_chunk_cases
  [consumes 2, case_names Fetch Rechunk Materialize Upload Cleanup Commit Success]:
  assumes "process_chunk c w = (r, w')" and "chunk_name c \<notin> set (completed_chunks w)"
  obtains
    (Fetch) e s2 o2 where
      "retry (open_dataset c) 3 10 (sys w, out w @ [ProcessingChunk c]) = (Inl e, s2, o2)"
      "r = Some (Fetch, e)" "w' = w\<lparr>sys := s2, out := o2\<rparr>"
  | (Rechunk) ds s2 o2 e s2c where
      "retry (open_dataset c) 3 10 (sys w, out w @ [ProcessingChunk c]) = (Inr (Some ds), s2, o2)"
      "ds_chunk ds s2 = (Inl e, s2c)"
      "r = Some (Transform, e)" "w' = w\<lparr>out := o2 @ [SavingChunk (temp_file c)], sys := s2c\<rparr>"
  | (Materialize) ds s2 o2 dc s2c e s3 o3 where
      "retry (open_dataset c) 3 10 (sys w, out w @ [ProcessingChunk c]) = (Inr (Some ds), s2, o2)"
      "ds_chunk ds s2 = (Inr dc, s2c)"
      "retry (to_netcdf (temp_file c)) 3 10 (s2c, o2 @ [SavingChunk (temp_file c)]) = (Inl e, s3, o3)"
      "r = Some (Materialize, e)" "w' = w\<lparr>sys := s3, out := o3\<rparr>"
  | (Upload) ds s2 o2 dc s2c u3 s3 o3 e s4 o4 where
      "retry (open_dataset c) 3 10 (sys w, out w @ [ProcessingChunk c]) = (Inr (Some ds), s2, o2)"
      "ds_chunk ds s2 = (Inr dc, s2c)"
      "retry (to_netcdf (temp_file c)) 3 10 (s2c, o2 @ [SavingChunk (temp_file c)]) = (Inr u3, s3, o3)"
      "retry (upload_file (temp_file c) (s3_key c)) 3 10
         (s3, o3 @ [Uploading (temp_file c) (s3_key c)]) = (Inl e, s4, o4)"
      "r = Some (Upload, e)" "w' = w\<lparr>sys := s4, out := o4\<rparr>"
  | (Cleanup) ds s2 o2 dc s2c u3 s3 o3 u4 s4 o4 e s5 where
      "retry (open_dataset c) 3 10 (sys w, out w @ [ProcessingChunk c]) = (Inr (Some ds), s2, o2)"
      "ds_chunk ds s2 = (Inr dc, s2c)"
      "retry (to_netcdf (temp_file c)) 3 10 (s2c, o2 @ [SavingChunk (temp_file c)]) = (Inr u3, s3, o3)"
      "retry (upload_file (temp_file c) (s3_key c)) 3 10
         (s3, o3 @ [Uploading (temp_file c) (s3_key c)]) = (Inr u4, s4, o4)"
      "os_remove (temp_file c) s4 = (Inl e, s5)"
      "r = Some (Cleanup, e)" "w' = w\<lparr>sys := s5, out := o4\<rparr>"
  | (Commit) ds s2 o2 dc s2c u3 s3 o3 u4 s4 o4 s5 e where
      "retry (open_dataset c) 3 10 (sys w, out w @ [ProcessingChunk c]) = (Inr (Some ds), s2, o2)"
      "ds_chunk ds s2 = (Inr dc, s2c)"
      "retry (to_netcdf (temp_file c)) 3 10 (s2c, o2 @ [SavingChunk (temp_file c)]) = (Inr u3, s3, o3)"
      "retry (upload_file (temp_file c) (s3_key c)) 3 10
         (s3, o3 @ [Uploading (temp_file c) (s3_key c)]) = (Inr u4, s4, o4)"
      "os_remove (temp_file c) s4 = (Inr (), s5)"
      "save_log (w\<lparr>sys := s5, out := o4,
          completed_chunks := completed_chunks w @ [chunk_name c]\<rparr>) = (Inl e, w')"
      "r = Some (Commit, e)"
  | (Success) ds s2 o2 dc s2c u3 s3 o3 u4 s4 o4 s5 w6 where
      "retry (open_dataset c) 3 10 (sys w, out w @ [ProcessingChunk c]) = (Inr (Some ds), s2, o2)"
      "ds_chunk ds s2 = (Inr dc, s2c)"
      "retry (to_netcdf (temp_file c)) 3 10 (s2c, o2 @ [SavingChunk (temp_file c)]) = (Inr u3, s3, o3)"
      "retry (upload_file (temp_file c) (s3_key c)) 3 10
         (s3, o3 @ [Uploading (temp_file c) (s3_key c)]) = (Inr u4, s4, o4)"
      "os_remove (temp_file c) s4 = (Inr (), s5)"
      "save_log (w\<lparr>sys := s5, out := o4,
          completed_chunks := completed_chunks w @ [chunk_name c]\<rparr>) = (Inr (), w6)"
      "r = None" "w' = w6\<lparr>out := out w6 @ [ChunkCompleted (chunk_name c)]\<rparr>"
proof -
  obtain res2 s2 o2 where R2:
    "retry (open_dataset c) 3 10 (sys w, out w @ [ProcessingChunk c]) = (res2, s2, o2)"
    by (metis prod_cases3)
  have n2: "res2 \<noteq> Inr None"
    using R2 retry_not_none [of 3 "open_dataset c" 10 "sys w" "out w @ [ProcessingChunk c]" "(s2, o2)"]
    by auto
  show thesis
  proof (cases res2)
    case (Inl e)
    with assms R2 show thesis
      by (intro Fetch [of e s2 o2])
         (simp_all add: process_chunk_def printed_def Let_def temp_file_def s3_key_def)
  next
    case Inr2: (Inr v2)
    with n2 obtain ds where ds: "res2 = Inr (Some ds)" by (cases v2) auto
    obtain res2c s2c where R2c: "ds_chunk ds s2 = (res2c, s2c)" by (cases "ds_chunk ds s2")
    obtain res3 s3 o3 where R3:
      "retry (to_netcdf (temp_file c)) 3 10 (s2c, o2 @ [SavingChunk (temp_file c)]) = (res3, s3, o3)"
      by (metis prod_cases3)
    obtain res4 s4 o4 where R4:
      "retry (upload_file (temp_file c) (s3_key c)) 3 10
           (s3, o3 @ [Uploading (temp_file c) (s3_key c)]) = (res4, s4, o4)"
      by (metis prod_cases3)
    obtain res5 s5 where R5: "os_remove (temp_file c) s4 = (res5, s5)"
      by (cases "os_remove (temp_file c) s4")
    obtain res6 w6 where R6: "save_log (w\<lparr>sys := s5, out := o4,
            completed_chunks := completed_chunks w @ [chunk_name c]\<rparr>) = (res6, w6)"
      by (cases "save_log (w\<lparr>sys := s5, out := o4,
            completed_chunks := completed_chunks w @ [chunk_name c]\<rparr>)")
    show thesis
    proof (cases res2c)
      case (Inl e)
      with assms R2 R2c ds show thesis
        by (intro Rechunk [of ds s2 o2 e s2c])
           (simp_all add: process_chunk_def printed_def Let_def temp_file_def s3_key_def)
    next
      case Inr2c: (Inr dc)
      show thesis
      proof (cases res3)
        case (Inl e)
        with assms R2 R2c R3 ds Inr2c show thesis
          by (intro Materialize [of ds s2 o2 dc s2c e s3 o3])
             (simp_all add: process_chunk_def printed_def Let_def temp_file_def s3_key_def)
      next
        case Inr3: (Inr u3)
        show thesis
        proof (cases res4)
          case (Inl e)
          with assms R2 R2c R3 R4 ds Inr2c Inr3 show thesis
            by (intro Upload [of ds s2 o2 dc s2c u3 s3 o3 e s4 o4])
               (simp_all add: process_chunk_def printed_def Let_def temp_file_def s3_key_def)
        next
          case Inr4: (Inr u4)
          show thesis
          proof (cases res5)
            case (Inl e)
            with assms R2 R2c R3 R4 R5 ds Inr2c Inr3 Inr4 show thesis
              by (intro Cleanup [of ds s2 o2 dc s2c u3 s3 o3 u4 s4 o4 e s5])
                 (simp_all add: process_chunk_def printed_def Let_def temp_file_def s3_key_def)
          next
            case Inr5: (Inr u5)
            show thesis
            proof (cases res6)
              case (Inl e)
              with assms R2 R2c R3 R4 R5 R6 ds Inr2c Inr3 Inr4 Inr5 show thesis
                by (intro Commit [of ds s2 o2 dc s2c u3 s3 o3 u4 s4 o4 s5 e])
                   (simp_all add: process_chunk_def printed_def Let_def temp_file_def s3_key_def)
            next
              case Inr6: (Inr u6)
              with assms R2 R2c R3 R4 R5 R6 ds Inr2c Inr3 Inr4 Inr5 show thesis
                by (intro Success [of ds s2 o2 dc s2c u3 s3 o3 u4 s4 o4 s5 w6])
                   (simp_all add: process_chunk_def printed_def Let_def temp_file_def s3_key_def)
            qed
          qed
        qed
      qed
    qed
  qed
qed

lemma log_Nil [simp]:
  "attempted_chunks [] = []" "skipped_chunks [] = []" "attempted_files [] = []"
  "skipped_files [] = []" "reported_errors [] = []"
  by (simp_all add: attempted_chunks_def skipped_chunks_def attempted_files_def
      skipped_files_def reported_errors_def)

lemma log_Cons [simp]:
  "attempted_chunks (ev # evs)
     = (case ev of ProcessingChunk c \<Rightarrow> [c] | _ \<Rightarrow> []) @ attempted_chunks evs"
  "skipped_chunks (ev # evs)
     = (case ev of SkippingChunk n \<Rightarrow> [n] | _ \<Rightarrow> []) @ skipped_chunks evs"
  "attempted_files (ev # evs)
     = (case ev of ProcessingFile n \<Rightarrow> [n] | _ \<Rightarrow> []) @ attempted_files evs"
  "skipped_files (ev # evs)
     = (case ev of SkippingFile n \<Rightarrow> [n] | _ \<Rightarrow> []) @ skipped_files evs"
  "reported_errors (ev # evs)
     = (case ev of ErrorProcessing n e \<Rightarrow> [(n, e)] | _ \<Rightarrow> []) @ reported_errors evs"
  by (simp_all add: attempted_chunks_def skipped_chunks_def attempted_files_def
      skipped_files_def reported_errors_def)

lemma ledger_writes_Nil [simp]: "ledger_writes [] = []"
  by (simp add: ledger_writes_def)

lemma ledger_writes_Cons [simp]:
  "ledger_writes (x # cs) = (if fst x = WriteLedger then x # ledger_writes cs else ledger_writes cs)"
  by (simp add: ledger_writes_def)

lemma retry_open_dataset_value:
  assumes "retry (open_dataset c) 3 10 (s, log) = (Inr (Some ds), s', log')"
  shows "ds = c"
proof -
  have st: "\<forall>s r s1. open_dataset c s = (r, s1) \<longrightarrow> grows {OpenDataset} {} {} s s1"
    using open_dataset_facts by blast
  from retry_step(4) [where func = "open_dataset c" and F = "{OpenDataset}" and D = "{}"
      and B = "{}", OF assms st refl]
  obtain s0 where "open_dataset c s0 = (Inr ds, s')" by blast
  then show ?thesis
    by (auto simp: open_dataset_def split: prod.splits option.splits)
qed

lemma process_chunk_post:
  assumes run: "process_chunk c w = (r, w')" and new: "chunk_name c \<notin> set (completed_chunks w)"
  shows "chunk_post c w r w'"
  using run new
proof (cases rule: process_chunk_cases)
  case (Fetch e s2 o2)
  note F2 = retry_open_dataset [OF Fetch(1)]
  from F2(5) obtain cs2 where cs2: "calls s2 = calls (sys w) @ cs2" "fst ` set cs2 \<subseteq> {OpenDataset}"
    by blast
  from F2(6) obtain evs2 where evs2: "o2 = (out w @ [ProcessingChunk c]) @ evs2"
    "\<forall>ev \<in> set evs2. is_retry_event ev" by blast
  define evs where "evs = [ProcessingChunk c] @ evs2"
  define cs where "cs = cs2"
  have O: "out w' = out w @ evs" by (simp add: Fetch(3) evs2(1) evs_def)
  have A: "attempted_chunks evs = [c]" "skipped_chunks evs = []"
    by (simp_all add: evs_def quiet_retry [OF evs2(2)])
  have C: "calls (sys w') = calls (sys w) @ cs"
    by (simp add: Fetch(3) cs2(1) cs_def)
  have L: "ledger_writes cs = []"
    using cs2(2) by (simp add: cs_def ledger_writes_none)
  have rest: "replies (sys w') = replies (sys w)"
    "source (sys w') = source (sys w)"
    "bucket (sys w) \<subseteq> bucket (sys w')"
    "completed_chunks w' = completed_chunks w"
    "log_file w' = log_file w"
    using F2(1,2,4) by (simp_all add: Fetch(3))
  show ?thesis
    unfolding chunk_post_def Fetch(2)
    using O A C L rest by auto
next
  case (Rechunk ds s2 o2 e s2c)
  note F2 = retry_open_dataset [OF Rechunk(1)]
  have ds: "ds = c" using Rechunk(1) by (rule retry_open_dataset_value)
  from F2(5) obtain cs2 where cs2: "calls s2 = calls (sys w) @ cs2" "fst ` set cs2 \<subseteq> {OpenDataset}"
    "(OpenDataset, chunk_name c, Done) \<in> set cs2"
    by blast
  from F2(6) obtain evs2 where evs2: "o2 = (out w @ [ProcessingChunk c]) @ evs2"
    "\<forall>ev \<in> set evs2. is_retry_event ev" by blast
  note F2c = ds_chunk_facts [OF Rechunk(2)]
  from F2c(5) obtain rep2c where cs2c: "calls s2c = calls s2 @ [(DsChunk, chunk_name c, rep2c)]"
    by (auto simp: ds)
  define evs where "evs = [ProcessingChunk c] @ evs2 @ [SavingChunk (temp_file c)]"
  define cs where "cs = cs2 @ [(DsChunk, chunk_name c, rep2c)]"
  have O: "out w' = out w @ evs" by (simp add: Rechunk(4) evs2(1) evs_def)
  have A: "attempted_chunks evs = [c]" "skipped_chunks evs = []"
    by (simp_all add: evs_def quiet_retry [OF evs2(2)])
  have C: "calls (sys w') = calls (sys w) @ cs"
    by (simp add: Rechunk(4) cs2(1) cs2c cs_def)
  have L: "ledger_writes cs = []"
    using cs2(2) by (simp add: cs_def ledger_writes_none)
  have rest: "replies (sys w') = replies (sys w)"
    "source (sys w') = source (sys w)"
    "bucket (sys w) \<subseteq> bucket (sys w')"
    "completed_chunks w' = completed_chunks w"
    "log_file w' = log_file w"
    using F2(1,2,4) F2c(1,2,4) by (simp_all add: Rechunk(4))
  show ?thesis
    unfolding chunk_post_def Rechunk(3)
    using O A C L rest by auto
next
  case (Materialize ds s2 o2 dc s2c e s3 o3)
  note F2 = retry_open_dataset [OF Materialize(1)]
  have ds: "ds = c" using Materialize(1) by (rule retry_open_dataset_value)
  from F2(5) obtain cs2 where cs2: "calls s2 = calls (sys w) @ cs2" "fst ` set cs2 \<subseteq> {OpenDataset}"
    "(OpenDataset, chunk_name c, Done) \<in> set cs2"
    by blast
  from F2(6) obtain evs2 where evs2: "o2 = (out w @ [ProcessingChunk c]) @ evs2"
    "\<forall>ev \<in> set evs2. is_retry_event ev" by blast
  note F2c = ds_chunk_facts [OF Materialize(2)]
  from F2c(5) have cs2c: "calls s2c = calls s2 @ [(DsChunk, chunk_name c, Done)]"
    by (auto simp: ds)
  note F3 = retry_to_netcdf [OF Materialize(3)]
  from F3(6) obtain cs3 where cs3: "calls s3 = calls s2c @ cs3" "fst ` set cs3 \<subseteq> {ToNetcdf}"
    by blast
  from F3(7) obtain evs3 where evs3: "o3 = (o2 @ [SavingChunk (temp_file c)]) @ evs3"
    "\<forall>ev \<in> set evs3. is_retry_event ev" by blast
  define evs where "evs = [ProcessingChunk c] @ evs2 @ [SavingChunk (temp_file c)] @ evs3"
  define cs where "cs = cs2 @ [(DsChunk, chunk_name c, Done)] @ cs3"
  have O: "out w' = out w @ evs" by (simp add: Materialize(5) evs2(1) evs3(1) evs_def)
  have A: "attempted_chunks evs = [c]" "skipped_chunks evs = []"
    by (simp_all add: evs_def quiet_retry [OF evs2(2)] quiet_retry [OF evs3(2)])
  have C: "calls (sys w') = calls (sys w) @ cs"
    by (simp add: Materialize(5) cs2(1) cs2c cs3(1) cs_def)
  have L: "ledger_writes cs = []"
    using cs2(2) cs3(2) by (simp add: cs_def ledger_writes_none)
  have rest: "replies (sys w') = replies (sys w)"
    "source (sys w') = source (sys w)"
    "bucket (sys w) \<subseteq> bucket (sys w')"
    "completed_chunks w' = completed_chunks w"
    "log_file w' = log_file w"
    using F2(1,2,4) F2c(1,2,4) F3(1,2,5) by (simp_all add: Materialize(5))
  show ?thesis
    unfolding chunk_post_def Materialize(4)
    using O A C L rest by auto
next
  case (Upload ds s2 o2 dc s2c u3 s3 o3 e s4 o4)
  note F2 = retry_open_dataset [OF Upload(1)]
  have ds: "ds = c" using Upload(1) by (rule retry_open_dataset_value)
  from F2(5) obtain cs2 where cs2: "calls s2 = calls (sys w) @ cs2" "fst ` set cs2 \<subseteq> {OpenDataset}"
    "(OpenDataset, chunk_name c, Done) \<in> set cs2"
    by blast
  from F2(6) obtain evs2 where evs2: "o2 = (out w @ [ProcessingChunk c]) @ evs2"
    "\<forall>ev \<in> set evs2. is_retry_event ev" by blast
  note F2c = ds_chunk_facts [OF Upload(2)]
  from F2c(5) have cs2c: "calls s2c = calls s2 @ [(DsChunk, chunk_name c, Done)]"
    by (auto simp: ds)
  note F3 = retry_to_netcdf [OF Upload(3)]
  from F3(6) obtain cs3 where cs3: "calls s3 = calls s2c @ cs3" "fst ` set cs3 \<subseteq> {ToNetcdf}"
    "(ToNetcdf, temp_file c, Done) \<in> set cs3"
    by blast
  from F3(7) obtain evs3 where evs3: "o3 = (o2 @ [SavingChunk (temp_file c)]) @ evs3"
    "\<forall>ev \<in> set evs3. is_retry_event ev" by blast
  note F4 = retry_upload_file [OF Upload(4)]
  from F4(6) obtain cs4 where cs4: "calls s4 = calls s3 @ cs4" "fst ` set cs4 \<subseteq> {UploadFile}"
    by blast
  from F4(7) obtain evs4 where evs4: "o4 = (o3 @ [Uploading (temp_file c) (s3_key c)]) @ evs4"
    "\<forall>ev \<in> set evs4. is_retry_event ev" by blast
  define evs where "evs = [ProcessingChunk c] @ evs2 @ [SavingChunk (temp_file c)] @ evs3 @ [Uploading (temp_file c) (s3_key c)] @ evs4"
  define cs where "cs = cs2 @ [(DsChunk, chunk_name c, Done)] @ cs3 @ cs4"
  have O: "out w' = out w @ evs" by (simp add: Upload(6) evs2(1) evs3(1) evs4(1) evs_def)
  have A: "attempted_chunks evs = [c]" "skipped_chunks evs = []"
    by (simp_all add: evs_def quiet_retry [OF evs2(2)] quiet_retry [OF evs3(2)] quiet_retry [OF evs4(2)])
  have C: "calls (sys w') = calls (sys w) @ cs"
    by (simp add: Upload(6) cs2(1) cs2c cs3(1) cs4(1) cs_def)
  have L: "ledger_writes cs = []"
    using cs2(2) cs3(2) cs4(2) by (simp add: cs_def ledger_writes_none)
  have D: "temp_file c \<in> disk (sys w')"
    using F3(8) F4(3) by (simp add: Upload(6))
  have rest: "replies (sys w') = replies (sys w)"
    "source (sys w') = source (sys w)"
    "bucket (sys w) \<subseteq> bucket (sys w')"
    "completed_chunks w' = completed_chunks w"
    "log_file w' = log_file w"
    using F2(1,2,4) F2c(1,2,4) F3(1,2,5) F4(1,2,4) by (simp_all add: Upload(6))
  show ?thesis
    unfolding chunk_post_def Upload(5)
    using O A C L D rest by auto
next
  case (Cleanup ds s2 o2 dc s2c u3 s3 o3 u4 s4 o4 e s5)
  note F2 = retry_open_dataset [OF Cleanup(1)]
  have ds: "ds = c" using Cleanup(1) by (rule retry_open_dataset_value)
  from F2(5) obtain cs2 where cs2: "calls s2 = calls (sys w) @ cs2" "fst ` set cs2 \<subseteq> {OpenDataset}"
    "(OpenDataset, chunk_name c, Done) \<in> set cs2"
    by blast
  from F2(6) obtain evs2 where evs2: "o2 = (out w @ [ProcessingChunk c]) @ evs2"
    "\<forall>ev \<in> set evs2. is_retry_event ev" by blast
  note F2c = ds_chunk_facts [OF Cleanup(2)]
  from F2c(5) have cs2c: "calls s2c = calls s2 @ [(DsChunk, chunk_name c, Done)]"
    by (auto simp: ds)
  note F3 = retry_to_netcdf [OF Cleanup(3)]
  from F3(6) obtain cs3 where cs3: "calls s3 = calls s2c @ cs3" "fst ` set cs3 \<subseteq> {ToNetcdf}"
    "(ToNetcdf, temp_file c, Done) \<in> set cs3"
    by blast
  from F3(7) obtain evs3 where evs3: "o3 = (o2 @ [SavingChunk (temp_file c)]) @ evs3"
    "\<forall>ev \<in> set evs3. is_retry_event ev" by blast
  note F4 = retry_upload_file [OF Cleanup(4)]
  from F4(6) obtain cs4 where cs4: "calls s4 = calls s3 @ cs4" "fst ` set cs4 \<subseteq> {UploadFile}"
    "(UploadFile, s3_key c, Done) \<in> set cs4"
    by blast
  from F4(7) obtain evs4 where evs4: "o4 = (o3 @ [Uploading (temp_file c) (s3_key c)]) @ evs4"
    "\<forall>ev \<in> set evs4. is_retry_event ev" by blast
  note F5 = os_remove_facts [OF Cleanup(5)]
  from F5(5) obtain cs5 where cs5: "calls s5 = calls s4 @ cs5" "fst ` set cs5 \<subseteq> {OsRemove}"
    by blast
  define evs where "evs = [ProcessingChunk c] @ evs2 @ [SavingChunk (temp_file c)] @ evs3 @ [Uploading (temp_file c) (s3_key c)] @ evs4"
  define cs where "cs = cs2 @ [(DsChunk, chunk_name c, Done)] @ cs3 @ cs4 @ cs5"
  have O: "out w' = out w @ evs" by (simp add: Cleanup(7) evs2(1) evs3(1) evs4(1) evs_def)
  have A: "attempted_chunks evs = [c]" "skipped_chunks evs = []"
    by (simp_all add: evs_def quiet_retry [OF evs2(2)] quiet_retry [OF evs3(2)] quiet_retry [OF evs4(2)])
  have C: "calls (sys w') = calls (sys w) @ cs"
    by (simp add: Cleanup(7) cs2(1) cs2c cs3(1) cs4(1) cs5(1) cs_def)
  have L: "ledger_writes cs = []"
    using cs2(2) cs3(2) cs4(2) cs5(2) by (simp add: cs_def ledger_writes_none)
  have B: "s3_key c \<in> bucket (sys w')" using F4(8) F5(3) by (simp add: Cleanup(7))
  have D: "temp_file c \<in> disk (sys w')"
    using F3(8) F4(3) F5(5) by (simp add: Cleanup(7))
  have rest: "replies (sys w') = replies (sys w)"
    "source (sys w') = source (sys w)"
    "bucket (sys w) \<subseteq> bucket (sys w')"
    "completed_chunks w' = completed_chunks w"
    "log_file w' = log_file w"
    using F2(1,2,4) F2c(1,2,4) F3(1,2,5) F4(1,2,4) F5(1,2,3) by (simp_all add: Cleanup(7))
  show ?thesis
    unfolding chunk_post_def Cleanup(6)
    using O A C L B D rest by auto
next
  case (Commit ds s2 o2 dc s2c u3 s3 o3 u4 s4 o4 s5 e)
  note F2 = retry_open_dataset [OF Commit(1)]
  have ds: "ds = c" using Commit(1) by (rule retry_open_dataset_value)
  from F2(5) obtain cs2 where cs2: "calls s2 = calls (sys w) @ cs2" "fst ` set cs2 \<subseteq> {OpenDataset}"
    "(OpenDataset, chunk_name c, Done) \<in> set cs2"
    by blast
  from F2(6) obtain evs2 where evs2: "o2 = (out w @ [ProcessingChunk c]) @ evs2"
    "\<forall>ev \<in> set evs2. is_retry_event ev" by blast
  note F2c = ds_chunk_facts [OF Commit(2)]
  from F2c(5) have cs2c: "calls s2c = calls s2 @ [(DsChunk, chunk_name c, Done)]"
    by (auto simp: ds)
  note F3 = retry_to_netcdf [OF Commit(3)]
  from F3(6) obtain cs3 where cs3: "calls s3 = calls s2c @ cs3" "fst ` set cs3 \<subseteq> {ToNetcdf}"
    "(ToNetcdf, temp_file c, Done) \<in> set cs3"
    by blast
  from F3(7) obtain evs3 where evs3: "o3 = (o2 @ [SavingChunk (temp_file c)]) @ evs3"
    "\<forall>ev \<in> set evs3. is_retry_event ev" by blast
  note F4 = retry_upload_file [OF Commit(4)]
  from F4(6) obtain cs4 where cs4: "calls s4 = calls s3 @ cs4" "fst ` set cs4 \<subseteq> {UploadFile}"
    "(UploadFile, s3_key c, Done) \<in> set cs4"
    by blast
  from F4(7) obtain evs4 where evs4: "o4 = (o3 @ [Uploading (temp_file c) (s3_key c)]) @ evs4"
    "\<forall>ev \<in> set evs4. is_retry_event ev" by blast
  note F5 = os_remove_facts [OF Commit(5)]
  from F5(4) have cs5: "calls s5 = calls s4 @ [(OsRemove, temp_file c, Done)]"
    and d5: "disk s5 = disk s4 - {temp_file c}" by simp_all
  note F6 = save_log_facts [OF Commit(6)]
  from F6(7) obtain rep where rep:
    "calls (sys w') = calls s5 @ [(WriteLedger, log_file_name, rep)]"
    "failure rep = Some e" "log_file w' = log_file w \<or> log_file w' = Garbled"
    by auto
  define evs where "evs = [ProcessingChunk c] @ evs2 @ [SavingChunk (temp_file c)] @ evs3 @ [Uploading (temp_file c) (s3_key c)] @ evs4"
  define cs where "cs = cs2 @ [(DsChunk, chunk_name c, Done)] @ cs3 @ cs4 @ [(OsRemove, temp_file c, Done)] @ [(WriteLedger, log_file_name, rep)]"
  have O: "out w' = out w @ evs" using F6(1) by (simp add: evs2(1) evs3(1) evs4(1) evs_def)
  have A: "attempted_chunks evs = [c]" "skipped_chunks evs = []"
    by (simp_all add: evs_def quiet_retry [OF evs2(2)] quiet_retry [OF evs3(2)] quiet_retry [OF evs4(2)])
  have C: "calls (sys w') = calls (sys w) @ cs"
    by (simp add: cs2(1) cs2c cs3(1) cs4(1) cs5 rep(1) cs_def)
  have L: "ledger_writes cs = [(WriteLedger, log_file_name, rep)]"
    using cs2(2) cs3(2) cs4(2) by (simp add: cs_def ledger_writes_none)
  have U: "transfer_steps c \<subseteq> set cs"
    using cs2(3) cs3(3) cs4(3) by (simp add: cs_def transfer_steps_def)
  have B: "s3_key c \<in> bucket (sys w')" using F4(8) F5(3) F6(5) by (simp)
  have rest: "replies (sys w') = replies (sys w)"
    "source (sys w') = source (sys w)"
    "bucket (sys w) \<subseteq> bucket (sys w')"
    "completed_chunks w' = completed_chunks w @ [chunk_name c]"
    using F2(1,2,4) F2c(1,2,4) F3(1,2,5) F4(1,2,4) F5(1,2,3) F6(2,3,4,5) by (simp_all)
  show ?thesis
    unfolding chunk_post_def Commit(7)
    using O A C L U B rep(2,3) rest by auto
next
  case (Success ds s2 o2 dc s2c u3 s3 o3 u4 s4 o4 s5 w6)
  note F2 = retry_open_dataset [OF Success(1)]
  have ds: "ds = c" using Success(1) by (rule retry_open_dataset_value)
  from F2(5) obtain cs2 where cs2: "calls s2 = calls (sys w) @ cs2" "fst ` set cs2 \<subseteq> {OpenDataset}"
    "(OpenDataset, chunk_name c, Done) \<in> set cs2"
    by blast
  from F2(6) obtain evs2 where evs2: "o2 = (out w @ [ProcessingChunk c]) @ evs2"
    "\<forall>ev \<in> set evs2. is_retry_event ev" by blast
  note F2c = ds_chunk_facts [OF Success(2)]
  from F2c(5) have cs2c: "calls s2c = calls s2 @ [(DsChunk, chunk_name c, Done)]"
    by (auto simp: ds)
  note F3 = retry_to_netcdf [OF Success(3)]
  from F3(6) obtain cs3 where cs3: "calls s3 = calls s2c @ cs3" "fst ` set cs3 \<subseteq> {ToNetcdf}"
    "(ToNetcdf, temp_file c, Done) \<in> set cs3"
    by blast
  from F3(7) obtain evs3 where evs3: "o3 = (o2 @ [SavingChunk (temp_file c)]) @ evs3"
    "\<forall>ev \<in> set evs3. is_retry_event ev" by blast
  note F4 = retry_upload_file [OF Success(4)]
  from F4(6) obtain cs4 where cs4: "calls s4 = calls s3 @ cs4" "fst ` set cs4 \<subseteq> {UploadFile}"
    "(UploadFile, s3_key c, Done) \<in> set cs4"
    by blast
  from F4(7) obtain evs4 where evs4: "o4 = (o3 @ [Uploading (temp_file c) (s3_key c)]) @ evs4"
    "\<forall>ev \<in> set evs4. is_retry_event ev" by blast
  note F5 = os_remove_facts [OF Success(5)]
  from F5(4) have cs5: "calls s5 = calls s4 @ [(OsRemove, temp_file c, Done)]"
    and d5: "disk s5 = disk s4 - {temp_file c}" by simp_all
  note F6 = save_log_facts [OF Success(6)]
  from F6(7) have c6: "calls (sys w6) = calls s5 @ [(WriteLedger, log_file_name, Done)]"
    and l6: "log_file w6 = Content (completed_chunks w @ [chunk_name c])"
    by auto
  define evs where "evs = [ProcessingChunk c] @ evs2 @ [SavingChunk (temp_file c)] @ evs3 @ [Uploading (temp_file c) (s3_key c)] @ evs4 @ [ChunkCompleted (chunk_name c)]"
  define cs where "cs = cs2 @ [(DsChunk, chunk_name c, Done)] @ cs3 @ cs4 @ [(OsRemove, temp_file c, Done)] @ [(WriteLedger, log_file_name, Done)]"
  have O: "out w' = out w @ evs" using F6(1) by (simp add: Success(8) evs2(1) evs3(1) evs4(1) evs_def)
  have A: "attempted_chunks evs = [c]" "skipped_chunks evs = []"
    by (simp_all add: evs_def quiet_retry [OF evs2(2)] quiet_retry [OF evs3(2)] quiet_retry [OF evs4(2)])
  have C: "calls (sys w') = calls (sys w) @ cs"
    by (simp add: Success(8) cs2(1) cs2c cs3(1) cs4(1) cs5 c6 cs_def)
  have L: "ledger_writes cs = [(WriteLedger, log_file_name, Done)]"
    using cs2(2) cs3(2) cs4(2) by (simp add: cs_def ledger_writes_none)
  have U: "transfer_steps c \<subseteq> set cs"
    using cs2(3) cs3(3) cs4(3) by (simp add: cs_def transfer_steps_def)
  have B: "s3_key c \<in> bucket (sys w')" using F4(8) F5(3) F6(5) by (simp add: Success(8))
  have D: "temp_file c \<notin> disk (sys w')" using d5 F6(6) by (simp add: Success(8))
  have rest: "replies (sys w') = replies (sys w)"
    "source (sys w') = source (sys w)"
    "bucket (sys w) \<subseteq> bucket (sys w')"
    "completed_chunks w' = completed_chunks w @ [chunk_name c]"
    "log_file w' = Content (completed_chunks w @ [chunk_name c])"
    using F2(1,2,4) F2c(1,2,4) F3(1,2,5) F4(1,2,4) F5(1,2,3) F6(2,3,4,5) l6 by (simp_all add: Success(8))
  show ?thesis
    unfolding chunk_post_def Success(7)
    using O A C L U B D rest by auto
qed

section \<open>Evaluating the scripts on concrete worlds\<close>

lemmas op_eval = call_def failure_def partway_def open_dataset_def ds_chunk_def to_netcdf_def
  upload_file_def os_remove_def save_log_def load_log_def printed_def retry_def

lemma upto_1_3: "[1..3::int] = [1, 2, 3]"
  by (simp add: upto.simps)

lemmas name_eval = chunk_name_def strftime_Ymd_def digit_def dt_def path_join_def
  local_temp_dir_def str_nat.simps


text \<open>
  Claim C8.  On the domain 2020-01-01 to 2020-03-01 the planner yields exactly the two
  monthly intervals, and the Copernicus script, started without a ledger in a world where
  every call succeeds, ends without an exception with both chunk ids in the ledger, in
  order, both files in the bucket and no staging file left on disk.
\<close>

theorem end_to_end_example:
  "generate_chunks (dt 2020 1 1 0) (dt 2020 3 1 0)
     = ([(dt 2020 1 1 0, dt 2020 2 1 0), (dt 2020 2 1 0, dt 2020 3 1 0)], None) \<and>
   fst (copernicus_main (dt 2020 1 1 0) (dt 2020 3 1 0) (fresh_copernicus (\<lambda>n. Done))) = None \<and>
   log_file (snd (copernicus_main (dt 2020 1 1 0) (dt 2020 3 1 0) (fresh_copernicus (\<lambda>n. Done))))
     = Content [''20200101_20200201'', ''20200201_20200301''] \<and>
   ledger_ids (log_file (snd (copernicus_main (dt 2020 1 1 0) (dt 2020 3 1 0)
       (fresh_copernicus (\<lambda>n. Done)))))
     = {''20200101_20200201'', ''20200201_20200301''} \<and>
   disk (sys (snd (copernicus_main (dt 2020 1 1 0) (dt 2020 3 1 0) (fresh_copernicus (\<lambda>n. Done)))))
     = {} \<and>
   bucket (sys (snd (copernicus_main (dt 2020 1 1 0) (dt 2020 3 1 0)
       (fresh_copernicus (\<lambda>n. Done)))))
     = {''2020/20200101_20200201.nc'', ''2020/20200201_20200301.nc''}"
proof -
  have g: "generate_chunks (dt 2020 1 1 0) (dt 2020 3 1 0)
     = ([(dt 2020 1 1 0, dt 2020 2 1 0), (dt 2020 2 1 0, dt 2020 3 1 0)], None)"
    by (simp add: generate_chunks.simps dt_eval Let_def)
  have m: "copernicus_main (dt 2020 1 1 0) (dt 2020 3 1 0) (fresh_copernicus (\<lambda>n. Done))
     = (None,
        \<lparr>sys = \<lparr>replies = \<lambda>n. Done, clock = 12,
            calls = [(OpenDataset, ''20200101_20200201'', Done),
                     (DsChunk, ''20200101_20200201'', Done),
                     (ToNetcdf, ''./temp_downloads/20200101_20200201.nc'', Done),
                     (UploadFile, ''2020/20200101_20200201.nc'', Done),
                     (OsRemove, ''./temp_downloads/20200101_20200201.nc'', Done),
                     (WriteLedger, ''./download_log.json'', Done),
                     (OpenDataset, ''20200201_20200301'', Done),
                     (DsChunk, ''20200201_20200301'', Done),
                     (ToNetcdf, ''./temp_downloads/20200201_20200301.nc'', Done),
                     (UploadFile, ''2020/20200201_20200301.nc'', Done),
                     (OsRemove, ''./temp_downloads/20200201_20200301.nc'', Done),
                     (WriteLedger, ''./download_log.json'', Done)],
            disk = {},
            bucket = {''2020/20200201_20200301.nc'', ''2020/20200101_20200201.nc''},
            source = []\<rparr>,
          out = [ProcessingChunk (dt 2020 1 1 0, dt 2020 2 1 0),
                 SavingChunk ''./temp_downloads/20200101_20200201.nc'',
                 Uploading ''./temp_downloads/20200101_20200201.nc'' ''2020/20200101_20200201.nc'',
                 ChunkCompleted ''20200101_20200201'',
                 ProcessingChunk (dt 2020 2 1 0, dt 2020 3 1 0),
                 SavingChunk ''./temp_downloads/20200201_20200301.nc'',
                 Uploading ''./temp_downloads/20200201_20200301.nc'' ''2020/20200201_20200301.nc'',
                 ChunkCompleted ''20200201_20200301'',
                 AllChunksDone],
          completed_chunks = [''20200101_20200201'', ''20200201_20200301''],
          log_file = Content [''20200101_20200201'', ''20200201_20200301'']\<rparr>)"
    unfolding copernicus_main_def g
    by (simp add: process_chunk_def fresh_copernicus_def fresh_system_def op_eval upto_1_3
        Let_def name_eval log_file_name_def)
  show ?thesis
    unfolding m using g by (simp add: ledger_ids_def insert_commute)
qed

section \<open>The Copernicus ledger\<close>

lemma synced_iff:
  "synced w = ((log_file w = Missing \<and> completed_chunks w = []) \<or>
     log_file w = Content (completed_chunks w))"
proof (cases "log_file w")
  case Missing
  have "(w\<lparr>completed_chunks := []\<rparr> = w) = (completed_chunks w = [])"
    by (cases w) auto
  with Missing show ?thesis by (simp add: synced_def load_log_def)
next
  case (Content ids)
  have "(w\<lparr>completed_chunks := ids\<rparr> = w) = (ids = completed_chunks w)"
    by (cases w) auto
  with Content show ?thesis by (auto simp: synced_def load_log_def)
next
  case Garbled
  then show ?thesis by (simp add: synced_def load_log_def)
qed

lemma synced_ids: "synced w \<Longrightarrow> ledger_ids (log_file w) = set (completed_chunks w)"
  by (auto simp: synced_iff ledger_ids_def)

lemma synced_out [simp]: "synced (w\<lparr>out := x\<rparr>) = synced w"
  by (simp add: synced_iff)

lemma load_log_synced: "load_log w0 = (Inr u, w) \<Longrightarrow> synced w \<and> sys w = sys w0 \<and> out w = out w0
    \<and> log_file w = log_file w0 \<and> set (completed_chunks w) = ledger_ids (log_file w0)"
  by (auto simp: load_log_def synced_iff ledger_ids_def split: json_file.splits)

lemma load_log_fails: "load_log w0 = (Inl e, w) \<Longrightarrow> w = w0 \<and> log_file w0 = Garbled"
  by (auto simp: load_log_def split: json_file.splits)

lemma new_calls_eq: "calls (sys w') = calls (sys w) @ cs \<Longrightarrow> new_calls w w' = cs"
  by (simp add: new_calls_def)

lemma ledger_writes_member: "x \<in> set (ledger_writes cs) \<longleftrightarrow> x \<in> set cs \<and> fst x = WriteLedger"
  by (auto simp: ledger_writes_def)

text \<open>What a pass over a chunk, skipped or not, keeps.\<close>

lemma chunk_post_synced:
  assumes "chunk_post c w None w'"
  shows "synced w'" and "set (completed_chunks w') = insert (chunk_name c) (set (completed_chunks w))"
  using assms by (auto simp: chunk_post_def synced_iff)

text \<open>
  The ledger after a pass over a chunk that is not skipped: the id is there exactly when
  all six steps are recorded as completed, and a ledger write is recorded only after the
  five steps of the transfer.
\<close>

lemma process_chunk_ledger:
  assumes run: "process_chunk c w = (r, w')" and new: "chunk_name c \<notin> set (completed_chunks w)"
    and s: "synced w"
  shows "\<exists>cs. calls (sys w') = calls (sys w) @ cs \<and>
     (chunk_name c \<in> ledger_ids (log_file w') \<longleftrightarrow> complete_steps c \<subseteq> set cs) \<and>
     (r = None \<longleftrightarrow> complete_steps c \<subseteq> set cs) \<and>
     ((\<exists>arg rep. (WriteLedger, arg, rep) \<in> set cs) \<longrightarrow> transfer_steps c \<subseteq> set cs) \<and>
     (r = None \<longrightarrow> ledger_ids (log_file w') = insert (chunk_name c) (ledger_ids (log_file w))) \<and>
     (r \<noteq> None \<longrightarrow> log_file w' = log_file w \<or>
        (log_file w' = Garbled \<and> (\<exists>e. r = Some (Commit, e))))"
proof -
  from run new have post: "chunk_post c w r w'" by (rule process_chunk_post)
  from s new have notin: "chunk_name c \<notin> ledger_ids (log_file w)" by (simp add: synced_ids)
  from s have ids: "ledger_ids (log_file w) = set (completed_chunks w)" by (rule synced_ids)
  show ?thesis
  proof (cases r)
    case None
    with post obtain cs where cs: "calls (sys w') = calls (sys w) @ cs"
      "ledger_writes cs = [(WriteLedger, log_file_name, Done)]" "transfer_steps c \<subseteq> set cs"
      and l: "log_file w' = Content (completed_chunks w @ [chunk_name c])"
      by (auto simp: chunk_post_def)
    from cs(2) have "(WriteLedger, log_file_name, Done) \<in> set (ledger_writes cs)" by simp
    then have "(WriteLedger, log_file_name, Done) \<in> set cs" by (simp add: ledger_writes_member)
    with cs(3) have full: "complete_steps c \<subseteq> set cs" by (simp add: complete_steps_def)
    from l ids have "ledger_ids (log_file w') = insert (chunk_name c) (ledger_ids (log_file w))"
      by (simp add: ledger_ids_def)
    with cs(1,3) full None show ?thesis by auto
  next
    case (Some x)
    obtain st e where x: "x = (st, e)" by (cases x)
    from post Some x obtain cs where cs: "calls (sys w') = calls (sys w) @ cs"
      "if st = Commit
       then (\<exists>rep. ledger_writes cs = [(WriteLedger, log_file_name, rep)] \<and>
               failure rep = Some e \<and> transfer_steps c \<subseteq> set cs)
       else ledger_writes cs = []"
      and l: "if st = Commit then log_file w' = log_file w \<or> log_file w' = Garbled
              else log_file w' = log_file w"
      by (auto simp: chunk_post_def)
    have nd: "(WriteLedger, log_file_name, Done) \<notin> set cs"
    proof
      assume "(WriteLedger, log_file_name, Done) \<in> set cs"
      then have m: "(WriteLedger, log_file_name, Done) \<in> set (ledger_writes cs)"
        by (simp add: ledger_writes_member)
      show False
      proof (cases "st = Commit")
        case True
        with cs(2) obtain rep where "ledger_writes cs = [(WriteLedger, log_file_name, rep)]"
          "failure rep = Some e" by auto
        with m show False by (auto simp: failure_def)
      next
        case False
        with cs(2) m show False by simp
      qed
    qed
    then have nfull: "\<not> complete_steps c \<subseteq> set cs" by (auto simp: complete_steps_def)
    have tr: "(\<exists>arg rep. (WriteLedger, arg, rep) \<in> set cs) \<longrightarrow> transfer_steps c \<subseteq> set cs"
    proof
      assume "\<exists>arg rep. (WriteLedger, arg, rep) \<in> set cs"
      then obtain arg rep where "(WriteLedger, arg, rep) \<in> set (ledger_writes cs)"
        by (auto simp: ledger_writes_member)
      then have "ledger_writes cs \<noteq> []" by auto
      with cs(2) show "transfer_steps c \<subseteq> set cs" by (auto split: if_splits)
    qed
    from l have l': "log_file w' = log_file w \<or> (log_file w' = Garbled \<and> st = Commit)"
      by (auto split: if_splits)
    with notin have "chunk_name c \<notin> ledger_ids (log_file w')"
      by (auto simp: ledger_ids_def)
    with cs(1) nfull tr l' Some x show ?thesis by auto
  qed
qed

text \<open>
  The ledger after the loop: the ids it had, with those of the chunks before the first
  pass that raised; unless that pass raised in a ledger write that left the file cut short.
\<close>

lemma chunk_loop_ledger:
  assumes "chunk_loop cs w = (r, w')" and "synced w"
  shows "\<exists>k xs. k \<le> length cs \<and> calls (sys w') = calls (sys w) @ xs \<and>
     (r = None \<longrightarrow> k = length cs \<and> synced w') \<and> (r \<noteq> None \<longrightarrow> k < length cs) \<and>
     (ledger_ids (log_file w') = ledger_ids (log_file w) \<union> chunk_name ` set (take k cs) \<or>
      (log_file w' = Garbled \<and> (\<exists>e. r = Some (Commit, e)))) \<and>
     (\<forall>c \<in> set (take k cs). chunk_name c \<in> ledger_ids (log_file w) \<or>
        (\<exists>c' \<in> set cs. chunk_name c' = chunk_name c \<and> complete_steps c' \<subseteq> set xs))"
  using assms
proof (induction cs arbitrary: w)
  case Nil
  then show ?case by simp
next
  case (Cons c cs)
  obtain r1 w1 where p: "process_chunk c w = (r1, w1)" by (cases "process_chunk c w")
  from Cons.prems(2) have ids: "ledger_ids (log_file w) = set (completed_chunks w)"
    by (rule synced_ids)
  show ?case
  proof (cases "chunk_name c \<in> set (completed_chunks w)")
    case True
    with p have w1: "r1 = None" "w1 = w\<lparr>out := out w @ [SkippingChunk (chunk_name c)]\<rparr>"
      by (simp_all add: process_chunk_skip)
    with p Cons.prems(1) have l: "chunk_loop cs w1 = (r, w')" by simp
    from w1 Cons.prems(2) have s1: "synced w1" by simp
    from Cons.IH [OF l s1] obtain k xs where k: "k \<le> length cs"
      "calls (sys w') = calls (sys w1) @ xs"
      "r = None \<longrightarrow> k = length cs \<and> synced w'" "r \<noteq> None \<longrightarrow> k < length cs"
      "ledger_ids (log_file w') = ledger_ids (log_file w1) \<union> chunk_name ` set (take k cs) \<or>
        (log_file w' = Garbled \<and> (\<exists>e. r = Some (Commit, e)))"
      "\<forall>c \<in> set (take k cs). chunk_name c \<in> ledger_ids (log_file w1) \<or>
        (\<exists>c' \<in> set cs. chunk_name c' = chunk_name c \<and> complete_steps c' \<subseteq> set xs)"
      by blast
    have same: "log_file w1 = log_file w" "calls (sys w1) = calls (sys w)" using w1(2) by simp_all
    have a: "ledger_ids (log_file w') = ledger_ids (log_file w) \<union> chunk_name ` set (take (Suc k) (c # cs)) \<or>
        (log_file w' = Garbled \<and> (\<exists>e. r = Some (Commit, e)))"
      using k(5) True ids same by auto
    have b: "\<forall>c0 \<in> set (take (Suc k) (c # cs)). chunk_name c0 \<in> ledger_ids (log_file w) \<or>
        (\<exists>c' \<in> set (c # cs). chunk_name c' = chunk_name c0 \<and> complete_steps c' \<subseteq> set xs)"
      using k(6) True ids same by auto
    show ?thesis
      apply (rule exI [of _ "Suc k"])
      apply (rule exI [of _ xs])
      using k(1-4) a b same by simp
  next
    case False
    note pl = process_chunk_ledger [OF p False Cons.prems(2)]
    then obtain xs1 where x1: "calls (sys w1) = calls (sys w) @ xs1"
      "r1 = None \<longleftrightarrow> complete_steps c \<subseteq> set xs1"
      "r1 = None \<longrightarrow> ledger_ids (log_file w1) = insert (chunk_name c) (ledger_ids (log_file w))"
      "r1 \<noteq> None \<longrightarrow> log_file w1 = log_file w \<or>
        (log_file w1 = Garbled \<and> (\<exists>e. r1 = Some (Commit, e)))"
      by blast
    show ?thesis
    proof (cases r1)
      case (Some x)
      with p Cons.prems(1) have rw: "r = Some x" "w' = w1" by simp_all
      from x1(4) Some rw have "ledger_ids (log_file w') = ledger_ids (log_file w) \<or>
          (log_file w' = Garbled \<and> (\<exists>e. r = Some (Commit, e)))" by auto
      with x1(1) rw show ?thesis
        by (intro exI [of _ 0] exI [of _ xs1]) simp
    next
      case None
      with p Cons.prems(1) have l: "chunk_loop cs w1 = (r, w')" by simp
      from p False None have post: "chunk_post c w None w1" by (simp add: process_chunk_post)
      then have s1: "synced w1" by (rule chunk_post_synced)
      from None x1(2,3) have c1: "complete_steps c \<subseteq> set xs1"
        and l1: "ledger_ids (log_file w1) = insert (chunk_name c) (ledger_ids (log_file w))"
        by simp_all
      from Cons.IH [OF l s1] obtain k xs where k: "k \<le> length cs"
        "calls (sys w') = calls (sys w1) @ xs"
        "r = None \<longrightarrow> k = length cs \<and> synced w'" "r \<noteq> None \<longrightarrow> k < length cs"
        "ledger_ids (log_file w') = ledger_ids (log_file w1) \<union> chunk_name ` set (take k cs) \<or>
          (log_file w' = Garbled \<and> (\<exists>e. r = Some (Commit, e)))"
        "\<forall>c \<in> set (take k cs). chunk_name c \<in> ledger_ids (log_file w1) \<or>
          (\<exists>c' \<in> set cs. chunk_name c' = chunk_name c \<and> complete_steps c' \<subseteq> set xs)"
        by blast
      have cc: "calls (sys w') = calls (sys w) @ (xs1 @ xs)" by (simp add: k(2) x1(1))
      have a: "ledger_ids (log_file w') = ledger_ids (log_file w) \<union> chunk_name ` set (take (Suc k) (c # cs)) \<or>
          (log_file w' = Garbled \<and> (\<exists>e. r = Some (Commit, e)))"
        using k(5) l1 by auto
      have b: "\<forall>c0 \<in> set (take (Suc k) (c # cs)). chunk_name c0 \<in> ledger_ids (log_file w) \<or>
          (\<exists>c' \<in> set (c # cs). chunk_name c' = chunk_name c0 \<and> complete_steps c' \<subseteq> set (xs1 @ xs))"
      proof
        fix c0 assume "c0 \<in> set (take (Suc k) (c # cs))"
        then have "c0 = c \<or> c0 \<in> set (take k cs)" by auto
        then show "chunk_name c0 \<in> ledger_ids (log_file w) \<or>
          (\<exists>c' \<in> set (c # cs). chunk_name c' = chunk_name c0 \<and> complete_steps c' \<subseteq> set (xs1 @ xs))"
        proof
          assume "c0 = c"
          with c1 show ?thesis by auto
        next
          assume "c0 \<in> set (take k cs)"
          with k(6) have "chunk_name c0 \<in> ledger_ids (log_file w1) \<or>
            (\<exists>c' \<in> set cs. chunk_name c' = chunk_name c0 \<and> complete_steps c' \<subseteq> set xs)" by blast
          then show ?thesis
          proof
            assume "chunk_name c0 \<in> ledger_ids (log_file w1)"
            with l1 have "chunk_name c0 = chunk_name c \<or> chunk_name c0 \<in> ledger_ids (log_file w)"
              by auto
            with c1 show ?thesis by auto
          next
            assume "\<exists>c' \<in> set cs. chunk_name c' = chunk_name c0 \<and> complete_steps c' \<subseteq> set xs"
            then show ?thesis by auto
          qed
        qed
      qed
      show ?thesis
        apply (rule exI [of _ "Suc k"])
        apply (rule exI [of _ "xs1 @ xs"])
        using k(1,3,4) cc a b by simp
    qed
  qed
qed

text \<open>The same for the whole script, which reads the ledger first.\<close>

lemma copernicus_main_ledger:
  assumes "copernicus_main start_date end_date w0 = (r, w')"
  shows "\<exists>k. k \<le> length (fst (generate_chunks start_date end_date)) \<and>
     (r = None \<longrightarrow> k = length (fst (generate_chunks start_date end_date))) \<and>
     (ledger_ids (log_file w') = ledger_ids (log_file w0)
          \<union> chunk_name ` set (take k (fst (generate_chunks start_date end_date))) \<or>
      (log_file w' = Garbled \<and> (\<exists>e. r = Some (Commit, e)))) \<and>
     (\<forall>c \<in> set (take k (fst (generate_chunks start_date end_date))).
        chunk_name c \<in> ledger_ids (log_file w0) \<or>
        (\<exists>c' \<in> set (fst (generate_chunks start_date end_date)).
           chunk_name c' = chunk_name c \<and> complete_steps c' \<subseteq> set (new_calls w0 w')))"
proof -
  let ?chunks = "fst (generate_chunks start_date end_date)"
  obtain l w where l: "load_log w0 = (l, w)" by (cases "load_log w0")
  show ?thesis
  proof (cases l)
    case (Inl e)
    with l assms load_log_fails [of w0 e w] have "w' = w0" "r = Some (Load, e)"
      by (simp_all add: copernicus_main_def)
    then show ?thesis by (intro exI [of _ 0]) simp
  next
    case (Inr u)
    with l have ld: "load_log w0 = (Inr u, w)" by simp
    note f = load_log_synced [OF ld]
    obtain r1 w1 where cl: "chunk_loop ?chunks w = (r1, w1)" by (cases "chunk_loop ?chunks w")
    from f have sw: "synced w" by simp
    from chunk_loop_ledger [OF cl sw] obtain k xs where k: "k \<le> length ?chunks"
      "calls (sys w1) = calls (sys w) @ xs"
      "r1 = None \<longrightarrow> k = length ?chunks \<and> synced w1" "r1 \<noteq> None \<longrightarrow> k < length ?chunks"
      "ledger_ids (log_file w1) = ledger_ids (log_file w) \<union> chunk_name ` set (take k ?chunks) \<or>
        (log_file w1 = Garbled \<and> (\<exists>e. r1 = Some (Commit, e)))"
      "\<forall>c \<in> set (take k ?chunks). chunk_name c \<in> ledger_ids (log_file w) \<or>
        (\<exists>c' \<in> set ?chunks. chunk_name c' = chunk_name c \<and> complete_steps c' \<subseteq> set xs)"
      by blast
    from assms ld cl have alt:
      "(r = r1 \<and> r1 \<noteq> None \<and> w' = w1) \<or>
       (r1 = None \<and> (\<exists>e. r = Some (Plan, e)) \<and> w' = w1) \<or>
       (r1 = None \<and> r = None \<and> w' = printed AllChunksDone w1)"
      by (auto simp: copernicus_main_def split: option.splits)
    then have same: "log_file w' = log_file w1" "calls (sys w') = calls (sys w1)"
      by (auto simp: printed_def)
    from same(2) k(2) f have "calls (sys w') = calls (sys w0) @ xs" by simp
    then have nc: "new_calls w0 w' = xs" by (rule new_calls_eq)
    have lf: "log_file w = log_file w0" using f by simp
    have a: "r = None \<longrightarrow> k = length ?chunks" using alt k(3) by auto
    have b: "ledger_ids (log_file w') = ledger_ids (log_file w0) \<union> chunk_name ` set (take k ?chunks) \<or>
        (log_file w' = Garbled \<and> (\<exists>e. r = Some (Commit, e)))"
      using k(5) alt same(1) lf by auto
    show ?thesis
      apply (rule exI [of _ k])
      using k(1,6) a b nc lf by simp
  qed
qed

section \<open>What the Copernicus loop attempts and skips\<close>

lemma chunk_loop_all_skipped:
  "chunk_name ` set cs \<subseteq> set (completed_chunks w) \<Longrightarrow>
   chunk_loop cs w = (None, w\<lparr>out := out w @ map (\<lambda>c. SkippingChunk (chunk_name c)) cs\<rparr>)"
proof (induction cs arbitrary: w)
  case Nil
  then show ?case by simp
next
  case (Cons c cs)
  then have c: "chunk_name c \<in> set (completed_chunks w)"
    and rest: "chunk_name ` set cs \<subseteq> set (completed_chunks (w\<lparr>out := out w @ [SkippingChunk (chunk_name c)]\<rparr>))"
    by auto
  from Cons.IH [OF rest] c show ?case by (simp add: process_chunk_skip)
qed

lemma chunk_loop_success:
  "chunk_loop cs w = (None, w') \<Longrightarrow> synced w \<Longrightarrow>
   synced w' \<and> set (completed_chunks w') = set (completed_chunks w) \<union> chunk_name ` set cs"
proof (induction cs arbitrary: w)
  case Nil
  then show ?case by simp
next
  case (Cons c cs)
  obtain r1 w1 where p: "process_chunk c w = (r1, w1)" by (cases "process_chunk c w")
  with Cons.prems(1) have r1: "r1 = None" and l: "chunk_loop cs w1 = (None, w')"
    by (auto split: option.splits)
  have "synced w1 \<and> set (completed_chunks w1) = insert (chunk_name c) (set (completed_chunks w))"
  proof (cases "chunk_name c \<in> set (completed_chunks w)")
    case True
    with p have "w1 = w\<lparr>out := out w @ [SkippingChunk (chunk_name c)]\<rparr>"
      by (simp add: process_chunk_skip)
    with True Cons.prems(2) show ?thesis by auto
  next
    case False
    with p r1 have "chunk_post c w None w1" by (simp add: process_chunk_post)
    then show ?thesis by (simp add: chunk_post_synced)
  qed
  with Cons.IH [OF l] show ?case by auto
qed

lemma chunk_loop_log:
  assumes "chunk_loop cs w = (r, w')" and "distinct (map chunk_name cs)"
  shows "\<exists>k evs. k \<le> length cs \<and> out w' = out w @ evs \<and>
     attempted_chunks evs = filter (\<lambda>c. chunk_name c \<notin> set (completed_chunks w)) (take k cs) \<and>
     skipped_chunks evs
       = filter (\<lambda>n. n \<in> set (completed_chunks w)) (map chunk_name (take k cs)) \<and>
     (r = None \<longrightarrow> k = length cs) \<and>
     (r \<noteq> None \<longrightarrow> 0 < k \<and> chunk_name (cs ! (k - 1)) \<notin> set (completed_chunks w))"
  using assms
proof (induction cs arbitrary: w)
  case Nil
  then show ?case by simp
next
  case (Cons c cs)
  let ?L = "set (completed_chunks w)"
  from Cons.prems(2) have d: "distinct (map chunk_name cs)"
    and nc: "chunk_name c \<notin> chunk_name ` set cs" by simp_all
  obtain r1 w1 where p: "process_chunk c w = (r1, w1)" by (cases "process_chunk c w")
  show ?case
  proof (cases "chunk_name c \<in> ?L")
    case True
    with p have w1: "r1 = None" "w1 = w\<lparr>out := out w @ [SkippingChunk (chunk_name c)]\<rparr>"
      by (simp_all add: process_chunk_skip)
    with p Cons.prems(1) have l: "chunk_loop cs w1 = (r, w')" by simp
    from Cons.IH [OF l d] obtain k evs where k: "k \<le> length cs" "out w' = out w1 @ evs"
      "attempted_chunks evs = filter (\<lambda>c. chunk_name c \<notin> set (completed_chunks w1)) (take k cs)"
      "skipped_chunks evs
         = filter (\<lambda>n. n \<in> set (completed_chunks w1)) (map chunk_name (take k cs))"
      "r = None \<longrightarrow> k = length cs"
      "r \<noteq> None \<longrightarrow> 0 < k \<and> chunk_name (cs ! (k - 1)) \<notin> set (completed_chunks w1)"
      by blast
    have last: "r \<noteq> None \<longrightarrow> chunk_name ((c # cs) ! (Suc k - 1)) \<notin> ?L"
      using k(6) w1(2) by (cases k) auto
    show ?thesis
      apply (rule exI [of _ "Suc k"])
      apply (rule exI [of _ "SkippingChunk (chunk_name c) # evs"])
      using k w1 True last by simp
  next
    case False
    with p have post: "chunk_post c w r1 w1" by (rule process_chunk_post)
    then obtain evs1 where e1: "out w1 = out w @ evs1" "attempted_chunks evs1 = [c]"
      "skipped_chunks evs1 = []" by (auto simp: chunk_post_def)
    show ?thesis
    proof (cases r1)
      case (Some x)
      with p Cons.prems(1) have "r = Some x" "w' = w1" by simp_all
      with e1 False show ?thesis
        by (intro exI [of _ "Suc 0"] exI [of _ evs1]) simp
    next
      case None
      with p Cons.prems(1) have l: "chunk_loop cs w1 = (r, w')" by simp
      from post None have L1: "set (completed_chunks w1) = insert (chunk_name c) ?L"
        by (simp add: chunk_post_synced)
      from Cons.IH [OF l d] obtain k evs where k: "k \<le> length cs" "out w' = out w1 @ evs"
        "attempted_chunks evs = filter (\<lambda>c. chunk_name c \<notin> set (completed_chunks w1)) (take k cs)"
        "skipped_chunks evs
           = filter (\<lambda>n. n \<in> set (completed_chunks w1)) (map chunk_name (take k cs))"
        "r = None \<longrightarrow> k = length cs"
        "r \<noteq> None \<longrightarrow> 0 < k \<and> chunk_name (cs ! (k - 1)) \<notin> set (completed_chunks w1)"
        by blast
      have other: "chunk_name x \<noteq> chunk_name c" if "x \<in> set (take k cs)" for x
      proof -
        from that have "x \<in> set cs" by (rule in_set_takeD)
        then have "chunk_name x \<in> chunk_name ` set cs" by (rule imageI)
        with nc show ?thesis by metis
      qed
      have f1: "filter (\<lambda>c. chunk_name c \<notin> set (completed_chunks w1)) (take k cs)
          = filter (\<lambda>c. chunk_name c \<notin> ?L) (take k cs)"
        by (rule filter_cong) (auto simp: L1 other)
      have f2: "filter (\<lambda>n. n \<in> set (completed_chunks w1)) (map chunk_name (take k cs))
          = filter (\<lambda>n. n \<in> ?L) (map chunk_name (take k cs))"
        by (rule filter_cong) (auto simp: L1 other)
      have last: "r \<noteq> None \<longrightarrow> chunk_name ((c # cs) ! (Suc k - 1)) \<notin> ?L"
        using k(6) L1 by (cases k) auto
      show ?thesis
        apply (rule exI [of _ "Suc k"])
        apply (rule exI [of _ "evs1 @ evs"])
        using k(1,2,5) e1 False last by (simp add: k(3,4) f1 f2)
    qed
  qed
qed

lemma filter_take_prefix: "prefix (filter P (take k xs)) (filter P xs)"
proof -
  have "filter P xs = filter P (take k xs) @ filter P (drop k xs)"
    by (metis append_take_drop_id filter_append)
  then show ?thesis by (simp add: prefix_def)
qed

text \<open>
  Claim C1 as the code has it.  For a chunk the Copernicus loop processes (its id not yet
  in the ledger, the in-memory list in step with the file): right after the pass the
  persisted ledger holds the chunk's id exactly when all six external steps of the pass are
  recorded as completed, that is the download, the rechunking, the local write, the upload,
  the removal of the local file and the ledger write; a ledger write is recorded only
  after the five earlier steps have completed; and the pass adds no other id.  For a whole
  run from any state of the ledger, restarts included: there is a number \<open>k\<close> of planned
  chunks passed before the run ended, all of them when it ended normally; the ledger
  afterwards holds the ids it held before together with those of these \<open>k\<close> chunks, unless
  the run ended in a ledger write that left the file cut short; and each of these ids was
  either in the ledger before or names a planned chunk whose six steps are recorded as
  completed among the calls of this run.
\<close>

theorem ledger_records_complete_chunks:
  "(synced w \<and> chunk_name c \<notin> set (completed_chunks w) \<and> process_chunk c w = (r, w') \<longrightarrow>
      (chunk_name c \<in> ledger_ids (log_file w') \<longleftrightarrow> complete_steps c \<subseteq> set (new_calls w w')) \<and>
      ((\<exists>arg rep. (WriteLedger, arg, rep) \<in> set (new_calls w w'))
         \<longrightarrow> transfer_steps c \<subseteq> set (new_calls w w')) \<and>
      ledger_ids (log_file w') \<subseteq> insert (chunk_name c) (ledger_ids (log_file w))) \<and>
   (copernicus_main start_date end_date w0 = (r0, w1) \<longrightarrow>
      (\<exists>k. k \<le> length (fst (generate_chunks start_date end_date)) \<and>
         (r0 = None \<longrightarrow> k = length (fst (generate_chunks start_date end_date))) \<and>
         (ledger_ids (log_file w1) = ledger_ids (log_file w0)
              \<union> chunk_name ` set (take k (fst (generate_chunks start_date end_date))) \<or>
          (log_file w1 = Garbled \<and> (\<exists>e. r0 = Some (Commit, e)))) \<and>
         (\<forall>c \<in> set (take k (fst (generate_chunks start_date end_date))).
            chunk_name c \<in> ledger_ids (log_file w0) \<or>
            (\<exists>c' \<in> set (fst (generate_chunks start_date end_date)).
               chunk_name c' = chunk_name c \<and> complete_steps c' \<subseteq> set (new_calls w0 w1)))))"
proof -
  have pass: "synced w \<and> chunk_name c \<notin> set (completed_chunks w) \<and> process_chunk c w = (r, w') \<longrightarrow>
      (chunk_name c \<in> ledger_ids (log_file w') \<longleftrightarrow> complete_steps c \<subseteq> set (new_calls w w')) \<and>
      ((\<exists>arg rep. (WriteLedger, arg, rep) \<in> set (new_calls w w'))
         \<longrightarrow> transfer_steps c \<subseteq> set (new_calls w w')) \<and>
      ledger_ids (log_file w') \<subseteq> insert (chunk_name c) (ledger_ids (log_file w))"
  proof (rule impI)
    assume a: "synced w \<and> chunk_name c \<notin> set (completed_chunks w) \<and> process_chunk c w = (r, w')"
    then have run: "process_chunk c w = (r, w')" and new: "chunk_name c \<notin> set (completed_chunks w)"
      and s: "synced w" by simp_all
    from process_chunk_ledger [OF run new s] obtain cs where cs:
      "calls (sys w') = calls (sys w) @ cs"
      "chunk_name c \<in> ledger_ids (log_file w') \<longleftrightarrow> complete_steps c \<subseteq> set cs"
      "(\<exists>arg rep. (WriteLedger, arg, rep) \<in> set cs) \<longrightarrow> transfer_steps c \<subseteq> set cs"
      "r = None \<longrightarrow> ledger_ids (log_file w') = insert (chunk_name c) (ledger_ids (log_file w))"
      "r \<noteq> None \<longrightarrow> log_file w' = log_file w \<or>
          (log_file w' = Garbled \<and> (\<exists>e. r = Some (Commit, e)))"
      by blast
    from cs(1) have nc: "new_calls w w' = cs" by (rule new_calls_eq)
    have sub: "ledger_ids (log_file w') \<subseteq> insert (chunk_name c) (ledger_ids (log_file w))"
      using cs(4,5) by (cases r) (auto simp: ledger_ids_def)
    from cs(2,3) sub show "(chunk_name c \<in> ledger_ids (log_file w') \<longleftrightarrow> complete_steps c \<subseteq> set (new_calls w w')) \<and>
      ((\<exists>arg rep. (WriteLedger, arg, rep) \<in> set (new_calls w w'))
         \<longrightarrow> transfer_steps c \<subseteq> set (new_calls w w')) \<and>
      ledger_ids (log_file w') \<subseteq> insert (chunk_name c) (ledger_ids (log_file w))"
      unfolding nc by simp
  qed
  have whole: "copernicus_main start_date end_date w0 = (r0, w1) \<longrightarrow>
      (\<exists>k. k \<le> length (fst (generate_chunks start_date end_date)) \<and>
         (r0 = None \<longrightarrow> k = length (fst (generate_chunks start_date end_date))) \<and>
         (ledger_ids (log_file w1) = ledger_ids (log_file w0)
              \<union> chunk_name ` set (take k (fst (generate_chunks start_date end_date))) \<or>
          (log_file w1 = Garbled \<and> (\<exists>e. r0 = Some (Commit, e)))) \<and>
         (\<forall>c \<in> set (take k (fst (generate_chunks start_date end_date))).
            chunk_name c \<in> ledger_ids (log_file w0) \<or>
            (\<exists>c' \<in> set (fst (generate_chunks start_date end_date)).
               chunk_name c' = chunk_name c \<and> complete_steps c' \<subseteq> set (new_calls w0 w1))))"
    by (rule impI) (rule copernicus_main_ledger)
  from pass whole show ?thesis by (rule conjI)
qed

lemmas world_eval = process_chunk_def fresh_copernicus_def fresh_system_def op_eval upto_1_3
  Let_def name_eval log_file_name_def

lemma planned_2020: "generate_chunks (dt 2020 1 1 0) (dt 2020 3 1 0) = ([january, february], None)"
  by (simp add: generate_chunks.simps dt_eval Let_def january_def february_def)

lemma january_pass:
  "process_chunk january (fresh_copernicus (\<lambda>n. Done))
     = (None,
        \<lparr>sys = \<lparr>replies = \<lambda>n. Done, clock = 6,
            calls = [(OpenDataset, ''20200101_20200201'', Done),
                     (DsChunk, ''20200101_20200201'', Done),
                     (ToNetcdf, ''./temp_downloads/20200101_20200201.nc'', Done),
                     (UploadFile, ''2020/20200101_20200201.nc'', Done),
                     (OsRemove, ''./temp_downloads/20200101_20200201.nc'', Done),
                     (WriteLedger, ''./download_log.json'', Done)],
            disk = {},
            bucket = {''2020/20200101_20200201.nc''},
            source = []\<rparr>,
          out = [ProcessingChunk (dt 2020 1 1 0, dt 2020 2 1 0),
                 SavingChunk ''./temp_downloads/20200101_20200201.nc'',
                 Uploading ''./temp_downloads/20200101_20200201.nc'' ''2020/20200101_20200201.nc'',
                 ChunkCompleted ''20200101_20200201''],
          completed_chunks = [''20200101_20200201''],
          log_file = Content [''20200101_20200201'']\<rparr>)"
  by (simp add: world_eval january_def)

lemma steps_january:
  "complete_steps january =
     {(WriteLedger, ''./download_log.json'', Done),
      (OpenDataset, ''20200101_20200201'', Done),
      (DsChunk, ''20200101_20200201'', Done),
      (ToNetcdf, ''./temp_downloads/20200101_20200201.nc'', Done),
      (UploadFile, ''2020/20200101_20200201.nc'', Done),
      (OsRemove, ''./temp_downloads/20200101_20200201.nc'', Done)}"
  by (simp add: complete_steps_def transfer_steps_def temp_file_def s3_key_def name_eval
      january_def log_file_name_def)

lemma run_cleanup_fails:
  "copernicus_main (dt 2020 1 1 0) (dt 2020 3 1 0) (fresh_copernicus (fail_only_at 4))
     = (Some (Cleanup, outage),
        \<lparr>sys = \<lparr>replies = fail_only_at 4, clock = 5,
            calls = [(OpenDataset, ''20200101_20200201'', Done),
                     (DsChunk, ''20200101_20200201'', Done),
                     (ToNetcdf, ''./temp_downloads/20200101_20200201.nc'', Done),
                     (UploadFile, ''2020/20200101_20200201.nc'', Done),
                     (OsRemove, ''./temp_downloads/20200101_20200201.nc'', Failed outage)],
            disk = {''./temp_downloads/20200101_20200201.nc''},
            bucket = {''2020/20200101_20200201.nc''},
            source = []\<rparr>,
          out = [ProcessingChunk (dt 2020 1 1 0, dt 2020 2 1 0),
                 SavingChunk ''./temp_downloads/20200101_20200201.nc'',
                 Uploading ''./temp_downloads/20200101_20200201.nc'' ''2020/20200101_20200201.nc''],
          completed_chunks = [],
          log_file = Missing\<rparr>)"
  unfolding copernicus_main_def planned_2020
  by (simp add: world_eval january_def february_def fail_only_at_def)

lemma run_ledger_cut_short:
  "copernicus_main (dt 2020 1 1 0) (dt 2020 3 1 0) (fresh_copernicus (cut_short_at 11))
     = (Some (Commit, outage),
        \<lparr>sys = \<lparr>replies = cut_short_at 11, clock = 12,
            calls = [(OpenDataset, ''20200101_20200201'', Done),
                     (DsChunk, ''20200101_20200201'', Done),
                     (ToNetcdf, ''./temp_downloads/20200101_20200201.nc'', Done),
                     (UploadFile, ''2020/20200101_20200201.nc'', Done),
                     (OsRemove, ''./temp_downloads/20200101_20200201.nc'', Done),
                     (WriteLedger, ''./download_log.json'', Done),
                     (OpenDataset, ''20200201_20200301'', Done),
                     (DsChunk, ''20200201_20200301'', Done),
                     (ToNetcdf, ''./temp_downloads/20200201_20200301.nc'', Done),
                     (UploadFile, ''2020/20200201_20200301.nc'', Done),
                     (OsRemove, ''./temp_downloads/20200201_20200301.nc'', Done),
                     (WriteLedger, ''./download_log.json'', FailedPartway outage)],
            disk = {},
            bucket = {''2020/20200201_20200301.nc'', ''2020/20200101_20200201.nc''},
            source = []\<rparr>,
          out = [ProcessingChunk (dt 2020 1 1 0, dt 2020 2 1 0),
                 SavingChunk ''./temp_downloads/20200101_20200201.nc'',
                 Uploading ''./temp_downloads/20200101_20200201.nc'' ''2020/20200101_20200201.nc'',
                 ChunkCompleted ''20200101_20200201'',
                 ProcessingChunk (dt 2020 2 1 0, dt 2020 3 1 0),
                 SavingChunk ''./temp_downloads/20200201_20200301.nc'',
                 Uploading ''./temp_downloads/20200201_20200301.nc'' ''2020/20200201_20200301.nc''],
          completed_chunks = [''20200101_20200201'', ''20200201_20200301''],
          log_file = Garbled\<rparr>)"
  unfolding copernicus_main_def planned_2020
  by (simp add: world_eval january_def february_def cut_short_at_def)

theorem ledger_records_complete_chunks_witness:
  "synced (fresh_copernicus (\<lambda>n. Done)) \<and>
   chunk_name january \<notin> set (completed_chunks (fresh_copernicus (\<lambda>n. Done))) \<and>
   complete_steps january
     \<subseteq> set (new_calls (fresh_copernicus (\<lambda>n. Done))
          (snd (process_chunk january (fresh_copernicus (\<lambda>n. Done))))) \<and>
   chunk_name january
     \<in> ledger_ids (log_file (snd (process_chunk january (fresh_copernicus (\<lambda>n. Done))))) \<and>
   fst (copernicus_main (dt 2020 1 1 0) (dt 2020 3 1 0) (fresh_copernicus (\<lambda>n. Done))) = None \<and>
   ledger_ids (log_file (snd (copernicus_main (dt 2020 1 1 0) (dt 2020 3 1 0)
       (fresh_copernicus (\<lambda>n. Done)))))
     = {chunk_name january, chunk_name february}"
proof -
  let ?w = "fresh_copernicus (\<lambda>n. Done)"
  let ?p = "process_chunk january ?w"
  let ?m = "copernicus_main (dt 2020 1 1 0) (dt 2020 3 1 0) ?w"
  have h1: "synced ?w"
    by (simp add: synced_def load_log_def fresh_copernicus_def)
  have h2: "chunk_name january \<notin> set (completed_chunks ?w)"
    by (simp add: fresh_copernicus_def)
  have h3: "?p = (fst ?p, snd ?p)" by simp
  have h4: "?m = (fst ?m, snd ?m)" by simp
  have steps: "complete_steps january \<subseteq> set (new_calls ?w (snd ?p))"
    unfolding january_pass steps_january
    by (simp add: new_calls_def fresh_copernicus_def fresh_system_def)
  have ok: "fst ?m = None"
    unfolding copernicus_main_def planned_2020
    by (simp add: world_eval january_def february_def)
  have old: "ledger_ids (log_file ?w) = {}"
    by (simp add: fresh_copernicus_def ledger_ids_def)
  note inst = ledger_records_complete_chunks [of ?w january "fst ?p" "snd ?p"
      "dt 2020 1 1 0" "dt 2020 3 1 0" ?w "fst ?m" "snd ?m"]
  from inst h1 h2 h3 steps
  have a: "chunk_name january \<in> ledger_ids (log_file (snd ?p))" by blast
  from inst h4 ok obtain k where k: "k = length (fst (generate_chunks (dt 2020 1 1 0) (dt 2020 3 1 0)))"
    "ledger_ids (log_file (snd ?m)) = ledger_ids (log_file ?w)
       \<union> chunk_name ` set (take k (fst (generate_chunks (dt 2020 1 1 0) (dt 2020 3 1 0))))"
    by auto
  from k old have b: "ledger_ids (log_file (snd ?m)) = {chunk_name january, chunk_name february}"
    unfolding planned_2020 by simp
  from h1 h2 steps a ok b show ?thesis by blast
qed

text \<open>
  Claim C1 as stated fails in its \<open>if\<close> half.  When the removal of the staging file
  raises after the upload has completed, the run ends there: the object is in the bucket,
  the upload is recorded as completed, and the ledger does not hold the chunk's id.  And
  when a later ledger write fails after truncating the file, a chunk whose six steps all
  completed, the ledger write included, is no longer in the persisted ledger.
\<close>

theorem uploaded_chunk_not_recorded:
  "fst (copernicus_main (dt 2020 1 1 0) (dt 2020 3 1 0) (fresh_copernicus (fail_only_at 4)))
     = Some (Cleanup, outage) \<and>
   (UploadFile, s3_key january, Done)
     \<in> set (calls (sys (snd (copernicus_main (dt 2020 1 1 0) (dt 2020 3 1 0)
          (fresh_copernicus (fail_only_at 4)))))) \<and>
   s3_key january
     \<in> bucket (sys (snd (copernicus_main (dt 2020 1 1 0) (dt 2020 3 1 0)
          (fresh_copernicus (fail_only_at 4))))) \<and>
   chunk_name january
     \<notin> ledger_ids (log_file (snd (copernicus_main (dt 2020 1 1 0) (dt 2020 3 1 0)
          (fresh_copernicus (fail_only_at 4))))) \<and>
   fst (copernicus_main (dt 2020 1 1 0) (dt 2020 3 1 0) (fresh_copernicus (cut_short_at 11)))
     = Some (Commit, outage) \<and>
   complete_steps january
     \<subseteq> set (calls (sys (snd (copernicus_main (dt 2020 1 1 0) (dt 2020 3 1 0)
          (fresh_copernicus (cut_short_at 11)))))) \<and>
   log_file (snd (copernicus_main (dt 2020 1 1 0) (dt 2020 3 1 0)
       (fresh_copernicus (cut_short_at 11)))) = Garbled \<and>
   chunk_name january
     \<notin> ledger_ids (log_file (snd (copernicus_main (dt 2020 1 1 0) (dt 2020 3 1 0)
          (fresh_copernicus (cut_short_at 11)))))"
  unfolding run_cleanup_fails run_ledger_cut_short steps_january
  by (simp add: ledger_ids_def s3_key_def name_eval january_def)

section \<open>One pass of the NOAA loop body\<close>

lemma listings_simps [simp]:
  "listings [] = []"
  "listings (x # cs) = (if fst x = ListObjects then x # listings cs else listings cs)"
  "listings (a @ b) = listings a @ listings b"
  by (simp_all add: listings_def)

lemma fetched_keys_simps [simp]:
  "fetched_keys [] = []"
  "fetched_keys (x # cs) = (if fst x = GetObject then fst (snd x) # fetched_keys cs else fetched_keys cs)"
  "fetched_keys (a @ b) = fetched_keys a @ fetched_keys b"
  by (simp_all add: fetched_keys_def)

lemma visited_files_simps [simp]:
  "visited_files [] = []"
  "visited_files (ev # evs)
     = (case ev of ProcessingFile n \<Rightarrow> [n] | SkippingFile n \<Rightarrow> [n] | _ \<Rightarrow> []) @ visited_files evs"
  "visited_files (a @ b) = visited_files a @ visited_files b"
  by (simp_all add: visited_files_def)

lemma quiet_calls:
  assumes "fst ` set cs \<subseteq> F"
  shows "ListObjects \<notin> F \<Longrightarrow> listings cs = []" and "GetObject \<notin> F \<Longrightarrow> fetched_keys cs = []"
  using assms by (induction cs) auto

lemma advances_refl [simp]: "advances [] s s"
  by (simp add: advances_def)

lemma advances_trans:
  assumes "advances ks s s1" and "advances [] s1 s2"
  shows "advances ks s s2"
proof -
  from assms(1) obtain cs1 where c1: "calls s1 = calls s @ cs1" "ledger_writes cs1 = []"
    "listings cs1 = []" "fetched_keys cs1 = ks"
    by (auto simp: advances_def)
  from assms(2) obtain cs2 where c2: "calls s2 = calls s1 @ cs2" "ledger_writes cs2 = []"
    "listings cs2 = []" "fetched_keys cs2 = []"
    by (auto simp: advances_def)
  have "calls s2 = calls s @ (cs1 @ cs2)" by (simp add: c1(1) c2(1))
  moreover have "ledger_writes (cs1 @ cs2) = []" by (simp add: c1(2) c2(2))
  moreover have "listings (cs1 @ cs2) = []" by (simp add: c1(3) c2(3))
  moreover have "fetched_keys (cs1 @ cs2) = ks" by (simp add: c1(4) c2(4))
  ultimately have "\<exists>cs. calls s2 = calls s @ cs \<and> ledger_writes cs = [] \<and> listings cs = [] \<and>
      fetched_keys cs = ks" by blast
  moreover from assms have "replies s2 = replies s" "source s2 = source s"
    "bucket s \<subseteq> bucket s2" "disk s \<subseteq> disk s2"
    by (auto simp: advances_def)
  ultimately show ?thesis by (simp add: advances_def)
qed

lemma call_advances:
  assumes "call f arg s = (rep, s1)" and "f \<noteq> WriteLedger" and "f \<noteq> ListObjects"
  shows "advances (if f = GetObject then [arg] else []) s s1"
proof -
  note c = call_facts [OF assms(1)]
  have "ledger_writes [(f, arg, rep)] = []" using assms(2) by simp
  moreover have "listings [(f, arg, rep)] = []" using assms(3) by simp
  moreover have "fetched_keys [(f, arg, rep)] = (if f = GetObject then [arg] else [])" by simp
  ultimately have "\<exists>cs. calls s1 = calls s @ cs \<and> ledger_writes cs = [] \<and> listings cs = [] \<and>
      fetched_keys cs = (if f = GetObject then [arg] else [])"
    using c(1) by blast
  with c show ?thesis by (simp add: advances_def)
qed

lemma get_object_advances:
  assumes "get_object key s = (r, s1)"
  shows "advances [key] s s1"
proof -
  obtain rep s0 where c: "call GetObject key s = (rep, s0)" by (cases "call GetObject key s")
  from assms c have "s1 = s0" by (auto simp: get_object_def split: option.splits)
  with call_advances [OF c] show ?thesis by simp
qed

lemma read_body_advances:
  assumes "read_body key s = (r, s1)"
  shows "advances [] s s1"
proof -
  obtain rep s0 where c: "call ReadBody key s = (rep, s0)" by (cases "call ReadBody key s")
  from assms c have "s1 = s0" by (auto simp: read_body_def split: option.splits)
  with call_advances [OF c] show ?thesis by simp
qed

lemma xr_open_dataset_advances:
  assumes "xr_open_dataset key s = (r, s1)"
  shows "advances [] s s1"
proof -
  obtain rep s0 where c: "call XrOpenDataset key s = (rep, s0)"
    by (cases "call XrOpenDataset key s")
  from assms c have "s1 = s0" by (auto simp: xr_open_dataset_def split: option.splits)
  with call_advances [OF c] show ?thesis by simp
qed

lemma sel_advances:
  assumes "sel key s = (r, s1)"
  shows "advances [] s s1"
proof -
  obtain rep s0 where c: "call Sel key s = (rep, s0)" by (cases "call Sel key s")
  from assms c have "s1 = s0" by (auto simp: sel_def split: option.splits)
  with call_advances [OF c] show ?thesis by simp
qed

lemma grows_advances:
  assumes "grows F D B s s1" and "WriteLedger \<notin> F" and "GetObject \<notin> F"
    and "ListObjects \<notin> F"
  shows "advances [] s s1"
proof -
  from assms(1) obtain cs where cs: "calls s1 = calls s @ cs" "fst ` set cs \<subseteq> F"
    by (auto simp: grows_def)
  from cs(2) assms(2) have "ledger_writes cs = []" by (rule ledger_writes_none)
  moreover from cs(2) assms(4) have "listings cs = []" by (rule quiet_calls(1))
  moreover from cs(2) assms(3) have "fetched_keys cs = []" by (rule quiet_calls(2))
  ultimately have "\<exists>cs. calls s1 = calls s @ cs \<and> ledger_writes cs = [] \<and> listings cs = [] \<and>
      fetched_keys cs = []"
    using cs(1) by blast
  with assms(1) show ?thesis by (simp add: advances_def grows_def)
qed

lemma to_netcdf_advances:
  assumes "to_netcdf p s = (r, s1)"
  shows "advances [] s s1" and "r = Inr u \<Longrightarrow> p \<in> disk s1"
proof -
  from to_netcdf_facts [OF assms] have g: "grows {ToNetcdf} {p} {} s s1"
    and d: "\<forall>v. r = Inr v \<longrightarrow> p \<in> disk s1" by auto
  from g show "advances [] s s1" by (rule grows_advances) simp_all
  from d show "r = Inr u \<Longrightarrow> p \<in> disk s1" by simp
qed

lemma upload_file_advances:
  assumes "upload_file p k s = (r, s1)"
  shows "advances [] s s1" and "disk s1 = disk s"
    and "r = Inr u \<Longrightarrow> calls s1 = calls s @ [(UploadFile, k, Done)] \<and> k \<in> bucket s1"
proof -
  from upload_file_facts [OF assms] have g: "grows {UploadFile} {} {k} s s1"
    and d: "\<exists>rep. calls s1 = calls s @ [(UploadFile, k, rep)] \<and>
        (\<forall>v. r = Inr v \<longrightarrow> rep = Done \<and> k \<in> bucket s1)" by auto
  from g show "advances [] s s1" by (rule grows_advances) simp_all
  from g show "disk s1 = disk s" by (auto simp: grows_def)
  from d show "r = Inr u \<Longrightarrow> calls s1 = calls s @ [(UploadFile, k, Done)] \<and> k \<in> bucket s1"
    by auto
qed

lemma write_checkpoint_facts:
  assumes "write_checkpoint w = (r, w1)"
  shows "out w1 = out w" "completed_files w1 = completed_files w"
    "replies (sys w1) = replies (sys w)" "source (sys w1) = source (sys w)"
    "bucket (sys w1) = bucket (sys w)" "disk (sys w1) = disk (sys w)"
    "\<exists>rep. calls (sys w1) = calls (sys w) @ [(WriteLedger, checkpoint_file_name, rep)] \<and>
       (case r of Inr u \<Rightarrow> rep = Done \<and> checkpoint_file w1 = Content (completed_files w)
        | Inl e \<Rightarrow> failure rep = Some e \<and>
            (checkpoint_file w1 = checkpoint_file w \<or> checkpoint_file w1 = Garbled))"
proof -
  obtain rep s0 where c: "call WriteLedger checkpoint_file_name (sys w) = (rep, s0)"
    by (cases "call WriteLedger checkpoint_file_name (sys w)")
  note f = call_facts [OF c]
  from assms c have alt:
    "(r = Inr () \<and> rep = Done \<and> w1 = w\<lparr>sys := s0, checkpoint_file := Content (completed_files w)\<rparr>) \<or>
     (\<exists>e. r = Inl e \<and> failure rep = Some e \<and>
        (w1 = w\<lparr>sys := s0\<rparr> \<or> w1 = w\<lparr>sys := s0, checkpoint_file := Garbled\<rparr>))"
    by (auto simp: write_checkpoint_def split: option.splits if_splits)
  from alt show "out w1 = out w" by auto
  from alt show "completed_files w1 = completed_files w" by auto
  from alt f show "replies (sys w1) = replies (sys w)" by auto
  from alt f show "source (sys w1) = source (sys w)" by auto
  from alt f show "bucket (sys w1) = bucket (sys w)" by auto
  from alt f show "disk (sys w1) = disk (sys w)" by auto
  from alt f show "\<exists>rep. calls (sys w1) = calls (sys w) @ [(WriteLedger, checkpoint_file_name, rep)] \<and>
       (case r of Inr u \<Rightarrow> rep = Done \<and> checkpoint_file w1 = Content (completed_files w)
        | Inl e \<Rightarrow> failure rep = Some e \<and>
            (checkpoint_file w1 = checkpoint_file w \<or> checkpoint_file w1 = Garbled))"
    by auto
qed

lemma file_post_failed:
  assumes "advances [key] (sys w) s" and "st \<in> {Fetch, Transform, Materialize, Upload}"
    and "st = Upload \<longrightarrow> local_nc_path filename \<in> disk s"
  shows "file_post key filename w (Some (st, e)) (w\<lparr>sys := s\<rparr>)"
proof -
  from assms(2) have "st \<noteq> Commit" "st \<noteq> Cleanup" by auto
  with assms show ?thesis
    unfolding file_post_def advances_def by auto
qed

lemma try_suite_post:
  assumes run: "try_suite key filename w = (r, w')"
  shows "file_post key filename w r w'"
proof -
  define p where "p = local_nc_path filename"
  obtain r1 s1 where 1: "get_object key (sys w) = (r1, s1)" by (cases "get_object key (sys w)")
  obtain r2 s2 where 2: "read_body key s1 = (r2, s2)" by (cases "read_body key s1")
  obtain r3 s3 where 3: "xr_open_dataset key s2 = (r3, s3)" by (cases "xr_open_dataset key s2")
  obtain r4 s4 where 4: "sel key s3 = (r4, s4)" by (cases "sel key s3")
  have A1: "advances [key] (sys w) s1" using 1 by (rule get_object_advances)
  have A2: "advances [key] (sys w) s2"
    using A1 read_body_advances [OF 2] by (rule advances_trans)
  have A3: "advances [key] (sys w) s3"
    using A2 xr_open_dataset_advances [OF 3] by (rule advances_trans)
  have A4: "advances [key] (sys w) s4"
    using A3 sel_advances [OF 4] by (rule advances_trans)
  show ?thesis
  proof (cases r1)
    case (Inl e)
    with run 1 have "r = Some (Fetch, e)" "w' = w\<lparr>sys := s1\<rparr>"
      by (simp_all add: try_suite_def)
    with A1 show ?thesis by (simp add: file_post_failed)
  next
    case Inr1: (Inr u1)
    show ?thesis
    proof (cases r2)
      case (Inl e)
      with run 1 2 Inr1 have "r = Some (Fetch, e)" "w' = w\<lparr>sys := s2\<rparr>"
        by (simp_all add: try_suite_def)
      with A2 show ?thesis by (simp add: file_post_failed)
    next
      case Inr2: (Inr u2)
      show ?thesis
      proof (cases r3)
        case (Inl e)
        with run 1 2 3 Inr1 Inr2 have "r = Some (Transform, e)" "w' = w\<lparr>sys := s3\<rparr>"
          by (simp_all add: try_suite_def)
        with A3 show ?thesis by (simp add: file_post_failed)
      next
        case Inr3: (Inr u3)
        show ?thesis
        proof (cases r4)
          case (Inl e)
          with run 1 2 3 4 Inr1 Inr2 Inr3
          have "r = Some (Transform, e)" "w' = w\<lparr>sys := s4\<rparr>"
            by (simp_all add: try_suite_def)
          with A4 show ?thesis by (simp add: file_post_failed)
        next
          case Inr4: (Inr u4)
          note pre = 1 2 3 4 Inr1 Inr2 Inr3 Inr4
          show ?thesis
          proof (cases "index (split_on CHR ''/'' key) 4")
            case (Inl e)
            with run pre have "r = Some (Transform, e)" "w' = w\<lparr>sys := s4\<rparr>"
              by (simp_all add: try_suite_def)
            with A4 show ?thesis by (simp add: file_post_failed)
          next
            case Inr5: (Inr date_folder)
            define k where "k = destination_prefix @ date_folder @ ''/'' @ netcdf_name filename"
            obtain r5 s5 where 5: "to_netcdf p s4 = (r5, s5)" by (cases "to_netcdf p s4")
            obtain r6 s6 where 6: "upload_file p k s5 = (r6, s6)"
              by (cases "upload_file p k s5")
            obtain r7 s7 where 7: "os_remove p s6 = (r7, s7)" by (cases "os_remove p s6")
            obtain r8 w8 where 8: "write_checkpoint
                (w\<lparr>sys := s7, completed_files := insert filename (completed_files w)\<rparr>) = (r8, w8)"
              by (cases "write_checkpoint
                (w\<lparr>sys := s7, completed_files := insert filename (completed_files w)\<rparr>)")
            have A5: "advances [key] (sys w) s5"
              using A4 to_netcdf_advances(1) [OF 5] by (rule advances_trans)
            have A6: "advances [key] (sys w) s6"
              using A5 upload_file_advances(1) [OF 6] by (rule advances_trans)
            have unfold: "(r, w') =
               (case r5 of Inl e \<Rightarrow> (Some (Materialize, e), w\<lparr>sys := s5\<rparr>)
                | Inr u5 \<Rightarrow>
               (case r6 of Inl e \<Rightarrow> (Some (Upload, e), w\<lparr>sys := s6\<rparr>)
                | Inr u6 \<Rightarrow>
               (case r7 of Inl e \<Rightarrow> (Some (Cleanup, e), w\<lparr>sys := s7\<rparr>)
                | Inr u7 \<Rightarrow>
               (case r8 of Inl e \<Rightarrow> (Some (Commit, e), w8)
                | Inr u8 \<Rightarrow> (None, printed (CompletedFile filename) w8)))))"
              using run pre Inr5 5 6 7 8
              by (cases r5; cases r6; cases r7; cases r8)
                 (simp_all add: try_suite_def Let_def p_def k_def local_nc_path_def netcdf_name_def)
            show ?thesis
            proof (cases r5)
              case (Inl e)
              with unfold have "r = Some (Materialize, e)" "w' = w\<lparr>sys := s5\<rparr>" by simp_all
              with A5 show ?thesis by (simp add: file_post_failed)
            next
              case Inr5': (Inr u5)
              then have d5: "p \<in> disk s5" using to_netcdf_advances(2) [OF 5] by simp
              then have d6: "p \<in> disk s6" using upload_file_advances(2) [OF 6] by simp
              show ?thesis
              proof (cases r6)
                case (Inl e)
                with unfold Inr5' have "r = Some (Upload, e)" "w' = w\<lparr>sys := s6\<rparr>" by simp_all
                with A6 d6 show ?thesis by (simp add: file_post_failed p_def)
              next
                case Inr6: (Inr u6)
                from A6 obtain cs6 where cs6: "calls s6 = calls (sys w) @ cs6"
                  "ledger_writes cs6 = []" "listings cs6 = []" "fetched_keys cs6 = [key]"
                  by (auto simp: advances_def)
                from A5 obtain cs5 where cs5: "calls s5 = calls (sys w) @ cs5"
                  by (auto simp: advances_def)
                from upload_file_advances(3) [OF 6] Inr6
                have "calls s6 = calls s5 @ [(UploadFile, k, Done)]" by simp
                with cs5 cs6(1) have "cs6 = cs5 @ [(UploadFile, k, Done)]" by simp
                then have up6: "(UploadFile, k, Done) \<in> set cs6" by simp
                from A6 have k6: "replies s6 = replies (sys w)" "source s6 = source (sys w)"
                  "bucket (sys w) \<subseteq> bucket s6" by (simp_all add: advances_def)
                note F7 = os_remove_facts [OF 7]
                show ?thesis
                proof (cases r7)
                  case (Inl e)
                  with unfold Inr5' Inr6 have rw: "r = Some (Cleanup, e)" "w' = w\<lparr>sys := s7\<rparr>"
                    by simp_all
                  from F7(5) Inl obtain cs7 where cs7: "calls s7 = calls s6 @ cs7"
                    "fst ` set cs7 \<subseteq> {OsRemove}" and d7: "disk s7 = disk s6" by blast
                  have c: "calls s7 = calls (sys w) @ (cs6 @ cs7)" by (simp add: cs7(1) cs6(1))
                  have l: "ledger_writes (cs6 @ cs7) = []"
                    using cs6(2) cs7(2) by (simp add: ledger_writes_none)
                  have g: "listings (cs6 @ cs7) = []" "fetched_keys (cs6 @ cs7) = [key]"
                    using cs6(3,4) cs7(2) by (simp_all add: quiet_calls)
                  from c l g have "\<exists>cs. calls s7 = calls (sys w) @ cs \<and>
                      listings cs = [] \<and> fetched_keys cs = [key] \<and>
                      ledger_writes cs = []" by blast
                  with k6 F7(1,2,3) d6 d7 show ?thesis
                    unfolding file_post_def rw by (simp add: p_def)
                next
                  case Inr7: (Inr u7)
                  from F7(4) Inr7 have cs7: "calls s7 = calls s6 @ [(OsRemove, p, Done)]"
                    and d7: "disk s7 = disk s6 - {p}" by simp_all
                  note F8 = write_checkpoint_facts [OF 8]
                  from F8(7) obtain rep where rep:
                    "calls (sys w8) = calls s7 @ [(WriteLedger, checkpoint_file_name, rep)]"
                    "\<forall>u. r8 = Inr u \<longrightarrow> rep = Done \<and>
                        checkpoint_file w8 = Content (insert filename (completed_files w))"
                    "\<forall>e. r8 = Inl e \<longrightarrow> failure rep = Some e \<and>
                        (checkpoint_file w8 = checkpoint_file w \<or> checkpoint_file w8 = Garbled)"
                    by (cases r8) auto
                  define cs where "cs = cs6 @ [(OsRemove, p, Done)]
                     @ [(WriteLedger, checkpoint_file_name, rep)]"
                  have c: "calls (sys w8) = calls (sys w) @ cs"
                    by (simp add: rep(1) cs7 cs6(1) cs_def)
                  have l: "ledger_writes cs = [(WriteLedger, checkpoint_file_name, rep)]"
                    using cs6(2) by (simp add: cs_def)
                  have g: "listings cs = []" "fetched_keys cs = [key]"
                    using cs6(3,4) by (simp_all add: cs_def)
                  have u: "\<exists>k. (UploadFile, k, Done) \<in> set cs"
                    using up6 by (auto simp: cs_def)
                  have k8: "replies (sys w8) = replies (sys w)" "source (sys w8) = source (sys w)"
                    "bucket (sys w) \<subseteq> bucket (sys w8)" "out w8 = out w"
                    "completed_files w8 = insert filename (completed_files w)"
                    "p \<notin> disk (sys w8)"
                    using k6 F7(1,2,3) F8(1-6) d7 by simp_all
                  show ?thesis
                  proof (cases r8)
                    case (Inl e)
                    with unfold Inr5' Inr6 Inr7 have rw: "r = Some (Commit, e)" "w' = w8"
                      by simp_all
                    from rep(3) Inl have f: "failure rep = Some e"
                      "checkpoint_file w8 = checkpoint_file w \<or> checkpoint_file w8 = Garbled"
                      by simp_all
                    from c l g u f(1) have "\<exists>cs. calls (sys w8) = calls (sys w) @ cs \<and>
                        listings cs = [] \<and> fetched_keys cs = [key] \<and>
                        (\<exists>rep. ledger_writes cs = [(WriteLedger, checkpoint_file_name, rep)] \<and>
                           failure rep = Some e) \<and>
                        (\<exists>k. (UploadFile, k, Done) \<in> set cs)" by blast
                    with k8 f(2) show ?thesis
                      unfolding file_post_def rw by simp
                  next
                    case (Inr u8)
                    with unfold Inr5' Inr6 Inr7
                    have rw: "r = None" "w' = printed (CompletedFile filename) w8"
                      by simp_all
                    from rep(2) Inr have f: "rep = Done"
                      "checkpoint_file w8 = Content (insert filename (completed_files w))"
                      by simp_all
                    from c l g u f(1) have "\<exists>cs. calls (sys w8) = calls (sys w) @ cs \<and>
                        listings cs = [] \<and> fetched_keys cs = [key] \<and>
                        ledger_writes cs = [(WriteLedger, checkpoint_file_name, Done)] \<and>
                        (\<exists>k. (UploadFile, k, Done) \<in> set cs)" by blast
                    with k8 f(2) show ?thesis
                      unfolding file_post_def rw by (simp add: printed_def p_def)
                  qed
                qed
              qed
            qed
          qed
        qed
      qed
    qed
  qed
qed

section \<open>The NOAA loop\<close>

lemma process_file_skip:
  "file_name key \<in> completed_files w \<Longrightarrow>
   process_file key w = (None, w\<lparr>out := out w @ [SkippingFile (file_name key)]\<rparr>)"
  by (simp add: process_file_def file_name_def printed_def Let_def)

lemma process_file_post:
  assumes "process_file key w = (r, w')" and "file_name key \<notin> completed_files w"
  shows "\<exists>w1. file_post key (file_name key) (w\<lparr>out := out w @ [ProcessingFile (file_name key)]\<rparr>) r w1 \<and>
     w' = (case r of None \<Rightarrow> w1
           | Some (st, e) \<Rightarrow> w1\<lparr>out := out w1 @ [ErrorProcessing (file_name key) e]\<rparr>)"
proof -
  let ?w0 = "w\<lparr>out := out w @ [ProcessingFile (file_name key)]\<rparr>"
  obtain r1 w1 where t: "try_suite key (file_name key) ?w0 = (r1, w1)"
    by (cases "try_suite key (file_name key) ?w0")
  then have post: "file_post key (file_name key) ?w0 r1 w1" by (rule try_suite_post)
  from assms t have "r = r1 \<and> w' = (case r of None \<Rightarrow> w1
           | Some (st, e) \<Rightarrow> w1\<lparr>out := out w1 @ [ErrorProcessing (file_name key) e]\<rparr>)"
    by (auto simp: process_file_def file_name_def printed_def Let_def split: option.splits)
  with post show ?thesis by blast
qed

text \<open>The pass over one file in terms of the state before and after the whole statement.\<close>

lemma process_file_summary:
  assumes run: "process_file key w = (r, w')" and new: "file_name key \<notin> completed_files w"
  shows "\<exists>evs. out w' = out w @ evs \<and> attempted_files evs = [file_name key] \<and>
           skipped_files evs = [] \<and> visited_files evs = [file_name key] \<and>
           reported_errors evs = (case r of None \<Rightarrow> [] | Some (st, e) \<Rightarrow> [(file_name key, e)]) \<and>
           (\<forall>st e. r = Some (st, e) \<longrightarrow> last (out w') = ErrorProcessing (file_name key) e)"
    and "replies (sys w') = replies (sys w)" and "source (sys w') = source (sys w)"
    and "\<exists>cs. calls (sys w') = calls (sys w) @ cs \<and> listings cs = [] \<and> fetched_keys cs = [key]"
    and "completed_files w \<subseteq> completed_files w'"
    and "completed_files w' \<subseteq> insert (file_name key) (completed_files w)"
    and "r = None \<Longrightarrow> completed_files w' = insert (file_name key) (completed_files w) \<and>
           checkpoint_file w' = Content (completed_files w')"
proof -
  let ?fn = "file_name key"
  let ?w0 = "w\<lparr>out := out w @ [ProcessingFile ?fn]\<rparr>"
  from process_file_post [OF run new] obtain w1 where
    post: "file_post key ?fn ?w0 r w1" and
    w': "w' = (case r of None \<Rightarrow> w1
           | Some (st, e) \<Rightarrow> w1\<lparr>out := out w1 @ [ErrorProcessing ?fn e]\<rparr>)"
    by blast
  from post have o1: "out w1 = (out w @ [ProcessingFile ?fn])
      @ (if r = None then [CompletedFile ?fn] else [])"
    by (simp add: file_post_def)
  have same: "sys w' = sys w1" "completed_files w' = completed_files w1"
    "checkpoint_file w' = checkpoint_file w1"
    using w' by (auto split: option.splits)
  show "\<exists>evs. out w' = out w @ evs \<and> attempted_files evs = [?fn] \<and> skipped_files evs = [] \<and>
           visited_files evs = [?fn] \<and>
           reported_errors evs = (case r of None \<Rightarrow> [] | Some (st, e) \<Rightarrow> [(?fn, e)]) \<and>
           (\<forall>st e. r = Some (st, e) \<longrightarrow> last (out w') = ErrorProcessing ?fn e)"
  proof (cases r)
    case None
    with w' o1 have "out w' = out w @ [ProcessingFile ?fn, CompletedFile ?fn]" by simp
    with None show ?thesis by simp
  next
    case (Some x)
    obtain st e where x: "x = (st, e)" by (cases x)
    with Some w' o1 have "out w' = out w @ [ProcessingFile ?fn, ErrorProcessing ?fn e]" by simp
    with Some x show ?thesis by simp
  qed
  from post same show "replies (sys w') = replies (sys w)" "source (sys w') = source (sys w)"
    by (simp_all add: file_post_def)
  from post same show "\<exists>cs. calls (sys w') = calls (sys w) @ cs \<and> listings cs = [] \<and>
      fetched_keys cs = [key]"
    unfolding file_post_def by auto
  from post same show "completed_files w \<subseteq> completed_files w'"
    by (auto simp: file_post_def split: option.splits if_splits)
  from post same show "completed_files w' \<subseteq> insert ?fn (completed_files w)"
    by (auto simp: file_post_def split: option.splits if_splits)
  from post same show "r = None \<Longrightarrow> completed_files w' = insert ?fn (completed_files w) \<and>
           checkpoint_file w' = Content (completed_files w')"
    by (auto simp: file_post_def)
qed

lemma file_loop_all_skipped:
  "file_name ` set keys \<subseteq> completed_files w \<Longrightarrow>
   file_loop keys w = w\<lparr>out := out w @ map (\<lambda>k. SkippingFile (file_name k)) keys\<rparr>"
proof (induction keys arbitrary: w)
  case Nil
  then show ?case by simp
next
  case (Cons k keys)
  then have k: "file_name k \<in> completed_files w"
    and rest: "file_name ` set keys \<subseteq> completed_files (w\<lparr>out := out w @ [SkippingFile (file_name k)]\<rparr>)"
    by auto
  from Cons.IH [OF rest] k show ?case by (simp add: process_file_skip)
qed

lemma file_loop_log:
  assumes "distinct (map file_name keys)"
  shows "\<exists>evs. out (file_loop keys w) = out w @ evs \<and>
     attempted_files evs = filter (\<lambda>n. n \<notin> completed_files w) (map file_name keys) \<and>
     skipped_files evs = filter (\<lambda>n. n \<in> completed_files w) (map file_name keys)"
  using assms
proof (induction keys arbitrary: w)
  case Nil
  then show ?case by simp
next
  case (Cons k keys)
  let ?L = "completed_files w"
  from Cons.prems have d: "distinct (map file_name keys)"
    and nk: "file_name k \<notin> file_name ` set keys" by simp_all
  obtain r1 w1 where p: "process_file k w = (r1, w1)" by (cases "process_file k w")
  from Cons.IH [OF d, of w1] obtain evs where evs: "out (file_loop keys w1) = out w1 @ evs"
    "attempted_files evs = filter (\<lambda>n. n \<notin> completed_files w1) (map file_name keys)"
    "skipped_files evs = filter (\<lambda>n. n \<in> completed_files w1) (map file_name keys)"
    by blast
  have fl: "snd (process_file k w) = w1" using p by simp
  show ?case
  proof (cases "file_name k \<in> ?L")
    case True
    with p have w1: "w1 = w\<lparr>out := out w @ [SkippingFile (file_name k)]\<rparr>"
      by (simp add: process_file_skip)
    show ?thesis
      apply (rule exI [of _ "SkippingFile (file_name k) # evs"])
      using evs w1 True by (simp add: fl)
  next
    case False
    note s = process_file_summary [OF p False]
    from s(1) obtain evs1 where e1: "out w1 = out w @ evs1" "attempted_files evs1 = [file_name k]"
      "skipped_files evs1 = []" by blast
    have mem: "(n \<in> completed_files w1) = (n \<in> ?L)" if "n \<in> set (map file_name keys)" for n
    proof -
      from that have "n \<in> file_name ` set keys" by simp
      with nk have "n \<noteq> file_name k" by metis
      with s(5,6) show ?thesis by auto
    qed
    have f1: "filter (\<lambda>n. n \<notin> completed_files w1) (map file_name keys)
        = filter (\<lambda>n. n \<notin> ?L) (map file_name keys)"
      by (rule filter_cong) (simp_all add: mem)
    have f2: "filter (\<lambda>n. n \<in> completed_files w1) (map file_name keys)
        = filter (\<lambda>n. n \<in> ?L) (map file_name keys)"
      by (rule filter_cong) (simp_all add: mem)
    show ?thesis
      apply (rule exI [of _ "evs1 @ evs"])
      using evs(1) e1 False by (simp add: fl evs(2,3) f1 f2)
  qed
qed

text \<open>
  The loop over the planned keys: every key is come to once, in order; the keys fetched
  are those attempted, once each, in order; a key is skipped only when its file name was
  in the checkpoint or has been attempted earlier in the run.
\<close>

lemma file_loop_fetches:
  "\<exists>cs evs. calls (sys (file_loop keys w)) = calls (sys w) @ cs \<and>
     out (file_loop keys w) = out w @ evs \<and>
     replies (sys (file_loop keys w)) = replies (sys w) \<and>
     source (sys (file_loop keys w)) = source (sys w) \<and>
     listings cs = [] \<and> subseq (fetched_keys cs) keys \<and>
     map file_name (fetched_keys cs) = attempted_files evs \<and>
     visited_files evs = map file_name keys \<and>
     completed_files w \<subseteq> completed_files (file_loop keys w) \<and>
     completed_files (file_loop keys w) \<subseteq> completed_files w \<union> set (attempted_files evs) \<and>
     (\<forall>k \<in> set keys. file_name k \<notin> completed_files w
        \<longrightarrow> file_name k \<in> set (attempted_files evs))"
proof (induction keys arbitrary: w)
  case Nil
  then show ?case by simp
next
  case (Cons k keys)
  obtain r1 w1 where p: "process_file k w = (r1, w1)" by (cases "process_file k w")
  have fl: "file_loop (k # keys) w = file_loop keys w1" using p by simp
  let ?w' = "file_loop keys w1"
  from Cons.IH [of w1] obtain cs evs where IH:
    "calls (sys ?w') = calls (sys w1) @ cs" "out ?w' = out w1 @ evs"
    "replies (sys ?w') = replies (sys w1)" "source (sys ?w') = source (sys w1)"
    "listings cs = []" "subseq (fetched_keys cs) keys"
    "map file_name (fetched_keys cs) = attempted_files evs"
    "visited_files evs = map file_name keys"
    "completed_files w1 \<subseteq> completed_files ?w'"
    "completed_files ?w' \<subseteq> completed_files w1 \<union> set (attempted_files evs)"
    "\<forall>k \<in> set keys. file_name k \<notin> completed_files w1
        \<longrightarrow> file_name k \<in> set (attempted_files evs)"
    by blast
  show ?case
  proof (cases "file_name k \<in> completed_files w")
    case True
    with p have w1: "w1 = w\<lparr>out := out w @ [SkippingFile (file_name k)]\<rparr>"
      by (simp add: process_file_skip)
    have a: "calls (sys ?w') = calls (sys w) @ cs" using IH(1) w1 by simp
    have b: "out ?w' = out w @ (SkippingFile (file_name k) # evs)" using IH(2) w1 by simp
    have c: "subseq (fetched_keys cs) (k # keys)" using IH(6) by (rule list_emb_Cons)
    have d: "visited_files (SkippingFile (file_name k) # evs) = map file_name (k # keys)"
      using IH(8) by simp
    have e: "attempted_files (SkippingFile (file_name k) # evs) = attempted_files evs" by simp
    have f: "\<forall>k' \<in> set (k # keys). file_name k' \<notin> completed_files w
        \<longrightarrow> file_name k' \<in> set (attempted_files evs)"
      using IH(11) True w1 by simp
    show ?thesis
      unfolding fl
      apply (rule exI [of _ cs])
      apply (rule exI [of _ "SkippingFile (file_name k) # evs"])
      using a b c d f IH(3,4,5,7,9,10) w1 unfolding e by simp
  next
    case False
    note s = process_file_summary [OF p False]
    from s(1) obtain evs1 where e1: "out w1 = out w @ evs1" "attempted_files evs1 = [file_name k]"
      "visited_files evs1 = [file_name k]" by blast
    from s(4) obtain cs1 where c1: "calls (sys w1) = calls (sys w) @ cs1" "listings cs1 = []"
      "fetched_keys cs1 = [k]" by blast
    have a: "calls (sys ?w') = calls (sys w) @ (cs1 @ cs)" using IH(1) c1(1) by simp
    have b: "out ?w' = out w @ (evs1 @ evs)" using IH(2) e1(1) by simp
    have c: "subseq (fetched_keys (cs1 @ cs)) (k # keys)" using IH(6) c1(3) by simp
    have d: "visited_files (evs1 @ evs) = map file_name (k # keys)" using IH(8) e1(3) by simp
    have e: "attempted_files (evs1 @ evs) = file_name k # attempted_files evs"
      using e1(2) by simp
    have m: "map file_name (fetched_keys (cs1 @ cs)) = attempted_files (evs1 @ evs)"
      using IH(7) c1(3) e by simp
    have l: "listings (cs1 @ cs) = []" using IH(5) c1(2) by simp
    have g: "completed_files w \<subseteq> completed_files ?w'" using s(5) IH(9) by blast
    have h: "completed_files ?w' \<subseteq> completed_files w \<union> set (attempted_files (evs1 @ evs))"
      using s(6) IH(10) unfolding e by auto
    have f: "\<forall>k' \<in> set (k # keys). file_name k' \<notin> completed_files w
        \<longrightarrow> file_name k' \<in> set (attempted_files (evs1 @ evs))"
    proof (intro ballI impI)
      fix k' assume k': "k' \<in> set (k # keys)" and n: "file_name k' \<notin> completed_files w"
      show "file_name k' \<in> set (attempted_files (evs1 @ evs))"
      proof (cases "file_name k' = file_name k")
        case True
        then show ?thesis unfolding e by simp
      next
        case False
        with k' have "k' \<in> set keys" by auto
        moreover from False n s(6) have "file_name k' \<notin> completed_files w1" by auto
        ultimately have "file_name k' \<in> set (attempted_files evs)" using IH(11) by blast
        then show ?thesis unfolding e by simp
      qed
    qed
    show ?thesis
      unfolding fl
      apply (rule exI [of _ "cs1 @ cs"])
      apply (rule exI [of _ "evs1 @ evs"])
      using a b c d m l g h f IH(3,4) s(2,3) by simp
  qed
qed

section \<open>The NOAA script as a whole\<close>

lemma load_checkpoint_facts:
  assumes "load_checkpoint w0 = (l, w)"
  shows "sys w = sys w0" "out w = out w0" "checkpoint_file w = checkpoint_file w0"
    "l = Inr u \<Longrightarrow> noaa_synced w \<and> completed_files w = checkpoint_ids (checkpoint_file w0)"
    "l = Inl e \<Longrightarrow> w = w0"
proof -
  from assms show "sys w = sys w0" "out w = out w0" "checkpoint_file w = checkpoint_file w0"
    by (auto simp: load_checkpoint_def split: json_file.splits)
  from assms show "l = Inl e \<Longrightarrow> w = w0"
    by (auto simp: load_checkpoint_def split: json_file.splits)
  show "l = Inr u \<Longrightarrow> noaa_synced w \<and> completed_files w = checkpoint_ids (checkpoint_file w0)"
    using assms
    by (auto simp: load_checkpoint_def noaa_synced_def checkpoint_ids_def split: json_file.splits)
qed

lemma list_objects_v2_facts:
  assumes "list_objects_v2 pfx s = (res, s1)"
  shows "replies s1 = replies s" "source s1 = source s" "disk s1 = disk s" "bucket s1 = bucket s"
    "calls s1 = calls s @ [(ListObjects, pfx, replies s (clock s))]"
    "res = Inr contents \<Longrightarrow>
       (case contents of None \<Rightarrow> [] | Some keys \<Rightarrow> keys) = first_page pfx s"
    "(\<exists>contents. res = Inr contents) = (replies s (clock s) = Done)"
proof -
  obtain rep s0 where c: "call ListObjects pfx s = (rep, s0)"
    by (cases "call ListObjects pfx s")
  note f = call_facts [OF c]
  from assms c have s1: "s1 = s0"
    by (auto simp: list_objects_v2_def Let_def split: option.splits)
  with f show "replies s1 = replies s" "source s1 = source s" "disk s1 = disk s"
    "bucket s1 = bucket s" "calls s1 = calls s @ [(ListObjects, pfx, replies s (clock s))]"
    by simp_all
  show "res = Inr contents \<Longrightarrow>
       (case contents of None \<Rightarrow> [] | Some keys \<Rightarrow> keys) = first_page pfx s"
    using assms c f(3)
    by (auto simp: list_objects_v2_def Let_def first_page_def split: option.splits if_splits)
  show "(\<exists>contents. res = Inr contents) = (replies s (clock s) = Done)"
    using assms c f(6)
    by (auto simp: list_objects_v2_def Let_def failure_def split: option.splits reply.splits)
qed

text \<open>The three ways the NOAA script ends.\<close>

lemma noaa_main_cases [consumes 1, case_names Load Listing Loop]:
  assumes "noaa_main w0 = (r, w')"
  obtains
    (Load) e where "r = Some (Load, e)" "w' = w0" "checkpoint_file w0 = Garbled"
  | (Listing) e w s where "load_checkpoint w0 = (Inr (), w)"
      "list_objects_v2 source_prefix (sys w0) = (Inl e, s)"
      "r = Some (Plan, e)" "w' = w\<lparr>sys := s\<rparr>"
  | (Loop) contents w s where "load_checkpoint w0 = (Inr (), w)"
      "list_objects_v2 source_prefix (sys w0) = (Inr contents, s)"
      "r = None"
      "w' = file_loop (planned_keys (sys w0))
              (w\<lparr>sys := s, out := out w0 @ [FoundFiles (length (planned_keys (sys w0)))]\<rparr>)"
proof -
  obtain l w where l: "load_checkpoint w0 = (l, w)" by (cases "load_checkpoint w0")
  note lf = load_checkpoint_facts [OF l]
  show thesis
  proof (cases l)
    case (Inl e)
    with l assms lf(5) have "r = Some (Load, e)" "w' = w0"
      by (simp_all add: noaa_main_def)
    moreover from l Inl have "checkpoint_file w0 = Garbled"
      by (auto simp: load_checkpoint_def split: json_file.splits)
    ultimately show thesis by (rule Load)
  next
    case (Inr u)
    obtain res s where ls: "list_objects_v2 source_prefix (sys w0) = (res, s)"
      by (cases "list_objects_v2 source_prefix (sys w0)")
    show thesis
    proof (cases res)
      case (Inl e)
      with l Inr ls assms lf(1) show thesis
        by (intro Listing [of w e s]) (simp_all add: noaa_main_def)
    next
      case (Inr contents)
      note pg = list_objects_v2_facts(6) [OF ls Inr]
      from l \<open>l = Inr u\<close> ls Inr assms lf(1,2) pg show thesis
        by (intro Loop [of w contents s])
           (simp_all add: noaa_main_def Let_def printed_def planned_keys_def)
    qed
  qed
qed

lemma load_checkpoint_garbled:
  "load_checkpoint w0 = (Inr u, w) \<Longrightarrow> checkpoint_file w0 \<noteq> Garbled"
  by (auto simp: load_checkpoint_def split: json_file.splits)

lemma subseq_set: "subseq xs ys \<Longrightarrow> set xs \<subseteq> set ys"
  by (induction rule: list_emb.induct) auto

lemma fetched_keys_member:
  "(GetObject, key, rep) \<in> set cs \<Longrightarrow> key \<in> set (fetched_keys cs)"
  by (induction cs) auto

text \<open>
  Claim C10.  A run of the NOAA script that can read its checkpoint lists the source
  bucket exactly once, under the source prefix, as its first call, and goes on exactly
  when that listing is answered.  The one response holds the first page of the matching
  keys, at most 1000 of them (the page size of the service, which the model of
  \<^verbatim>\<open>list_objects_v2\<close> assumes): the keys planned are the GRIB2 keys of that page, the line
  \<^verbatim>\<open>Found n GRIB2 files\<close> counts them, the loop comes to each of them once, in listing
  order, and fetches those it attempts, once each and in that order; every planned file
  name that is not in the checkpoint is fetched.  No object is fetched under a key beyond
  the first page.  A run that cannot read its checkpoint makes no call at all.
\<close>

theorem noaa_plans_first_page_only:
  "noaa_main w0 = (r, w') \<longrightarrow>
     planned_keys (sys w0)
       = filter (\<lambda>key. endswith key ''.grib2'')
           (take 1000 (filter (prefix source_prefix) (source (sys w0)))) \<and>
     listings (new_calls w0 w')
       = (if checkpoint_file w0 = Garbled then []
          else [(ListObjects, source_prefix, replies (sys w0) (clock (sys w0)))]) \<and>
     (r = None) = (checkpoint_file w0 \<noteq> Garbled \<and> replies (sys w0) (clock (sys w0)) = Done) \<and>
     (checkpoint_file w0 = Garbled \<longrightarrow> new_calls w0 w' = []) \<and>
     (r \<noteq> None \<longrightarrow> fetched_keys (new_calls w0 w') = [] \<and> out w' = out w0) \<and>
     (r = None \<longrightarrow>
        take 1 (new_calls w0 w') = [(ListObjects, source_prefix, Done)] \<and>
        (\<exists>evs. out w' = out w0 @ FoundFiles (length (planned_keys (sys w0))) # evs \<and>
           visited_files evs = map file_name (planned_keys (sys w0)) \<and>
           attempted_files evs = map file_name (fetched_keys (new_calls w0 w'))) \<and>
        subseq (fetched_keys (new_calls w0 w')) (planned_keys (sys w0)) \<and>
        (\<forall>k \<in> set (planned_keys (sys w0)).
           file_name k \<notin> checkpoint_ids (checkpoint_file w0)
             \<longrightarrow> file_name k \<in> file_name ` set (fetched_keys (new_calls w0 w')))) \<and>
     (\<forall>key rep. key \<notin> set (take 1000 (filter (prefix source_prefix) (source (sys w0))))
        \<longrightarrow> (GetObject, key, rep) \<notin> set (new_calls w0 w'))"
proof
  assume run: "noaa_main w0 = (r, w')"
  have pk: "planned_keys (sys w0)
       = filter (\<lambda>key. endswith key ''.grib2'')
           (take 1000 (filter (prefix source_prefix) (source (sys w0))))"
    by (simp add: planned_keys_def first_page_def MaxKeys_def)
  have sub: "set (planned_keys (sys w0))
      \<subseteq> set (take 1000 (filter (prefix source_prefix) (source (sys w0))))"
    unfolding pk by auto
  let ?rep = "replies (sys w0) (clock (sys w0))"
  from run have rest:
    "listings (new_calls w0 w')
       = (if checkpoint_file w0 = Garbled then [] else [(ListObjects, source_prefix, ?rep)]) \<and>
     (r = None) = (checkpoint_file w0 \<noteq> Garbled \<and> ?rep = Done) \<and>
     (checkpoint_file w0 = Garbled \<longrightarrow> new_calls w0 w' = []) \<and>
     (r \<noteq> None \<longrightarrow> fetched_keys (new_calls w0 w') = [] \<and> out w' = out w0) \<and>
     (r = None \<longrightarrow>
        take 1 (new_calls w0 w') = [(ListObjects, source_prefix, Done)] \<and>
        (\<exists>evs. out w' = out w0 @ FoundFiles (length (planned_keys (sys w0))) # evs \<and>
           visited_files evs = map file_name (planned_keys (sys w0)) \<and>
           attempted_files evs = map file_name (fetched_keys (new_calls w0 w'))) \<and>
        subseq (fetched_keys (new_calls w0 w')) (planned_keys (sys w0)) \<and>
        (\<forall>k \<in> set (planned_keys (sys w0)).
           file_name k \<notin> checkpoint_ids (checkpoint_file w0)
             \<longrightarrow> file_name k \<in> file_name ` set (fetched_keys (new_calls w0 w')))) \<and>
     set (fetched_keys (new_calls w0 w')) \<subseteq> set (planned_keys (sys w0))"
  proof (cases rule: noaa_main_cases)
    case (Load e)
    then show ?thesis by (simp add: new_calls_def)
  next
    case (Listing e w s)
    note lf = list_objects_v2_facts [OF Listing(2)]
    from Listing(1) have ng: "checkpoint_file w0 \<noteq> Garbled" by (rule load_checkpoint_garbled)
    from lf(5) Listing(4) have "calls (sys w') = calls (sys w0) @ [(ListObjects, source_prefix, ?rep)]"
      by simp
    then have nc: "new_calls w0 w' = [(ListObjects, source_prefix, ?rep)]" by (rule new_calls_eq)
    from lf(7) have nd: "?rep \<noteq> Done" by auto
    from load_checkpoint_facts(2) [OF Listing(1)] Listing(4) have o: "out w' = out w0" by simp
    from ng nc nd o Listing(3) show ?thesis by simp
  next
    case (Loop contents w s)
    let ?keys = "planned_keys (sys w0)"
    let ?w1 = "w\<lparr>sys := s, out := out w0 @ [FoundFiles (length ?keys)]\<rparr>"
    note lf = list_objects_v2_facts [OF Loop(2)]
    note cf = load_checkpoint_facts [OF Loop(1)]
    from Loop(1) have ng: "checkpoint_file w0 \<noteq> Garbled" by (rule load_checkpoint_garbled)
    from lf(7) have d: "?rep = Done" by auto
    from file_loop_fetches [of ?keys ?w1] obtain cs evs where fl:
      "calls (sys (file_loop ?keys ?w1)) = calls (sys ?w1) @ cs"
      "out (file_loop ?keys ?w1) = out ?w1 @ evs"
      "listings cs = []" "subseq (fetched_keys cs) ?keys"
      "map file_name (fetched_keys cs) = attempted_files evs"
      "visited_files evs = map file_name ?keys"
      "\<forall>k \<in> set ?keys. file_name k \<notin> completed_files ?w1
          \<longrightarrow> file_name k \<in> set (attempted_files evs)"
      by blast
    have "calls (sys w') = calls (sys w0) @ ((ListObjects, source_prefix, ?rep) # cs)"
      using fl(1) lf(5) by (simp add: Loop(4))
    then have nc: "new_calls w0 w' = (ListObjects, source_prefix, ?rep) # cs"
      by (rule new_calls_eq)
    have o: "out w' = out w0 @ FoundFiles (length ?keys) # evs"
      using fl(2) by (simp add: Loop(4))
    have fk: "fetched_keys (new_calls w0 w') = fetched_keys cs" by (simp add: nc)
    have cfl: "completed_files ?w1 = checkpoint_ids (checkpoint_file w0)"
      using cf(4) [of "()"] by simp
    have all: "\<forall>k \<in> set ?keys. file_name k \<notin> checkpoint_ids (checkpoint_file w0)
        \<longrightarrow> file_name k \<in> file_name ` set (fetched_keys (new_calls w0 w'))"
    proof (intro ballI impI)
      fix k assume "k \<in> set ?keys" and "file_name k \<notin> checkpoint_ids (checkpoint_file w0)"
      with fl(7) cfl have "file_name k \<in> set (attempted_files evs)" by simp
      then have "file_name k \<in> set (map file_name (fetched_keys cs))" by (simp add: fl(5))
      then show "file_name k \<in> file_name ` set (fetched_keys (new_calls w0 w'))"
        by (simp add: fk)
    qed
    have ss: "set (fetched_keys (new_calls w0 w')) \<subseteq> set ?keys"
      using fl(4) unfolding fk by (rule subseq_set)
    have ex: "\<exists>evs. out w' = out w0 @ FoundFiles (length ?keys) # evs \<and>
           visited_files evs = map file_name ?keys \<and>
           attempted_files evs = map file_name (fetched_keys (new_calls w0 w'))"
      using o fl(5,6) fk by auto
    have l1: "listings (new_calls w0 w') = [(ListObjects, source_prefix, ?rep)]"
      using fl(3) by (simp add: nc)
    have t1: "take 1 (new_calls w0 w') = [(ListObjects, source_prefix, Done)]"
      by (simp add: nc d)
    have sq: "subseq (fetched_keys (new_calls w0 w')) ?keys" using fl(4) by (simp add: fk)
    from ng d l1 t1 ex sq all ss Loop(3) show ?thesis by simp
  qed
  then have parts:
    "listings (new_calls w0 w')
       = (if checkpoint_file w0 = Garbled then [] else [(ListObjects, source_prefix, ?rep)])"
    "(r = None) = (checkpoint_file w0 \<noteq> Garbled \<and> ?rep = Done)"
    "checkpoint_file w0 = Garbled \<longrightarrow> new_calls w0 w' = []"
    "r \<noteq> None \<longrightarrow> fetched_keys (new_calls w0 w') = [] \<and> out w' = out w0"
    "r = None \<longrightarrow>
        take 1 (new_calls w0 w') = [(ListObjects, source_prefix, Done)] \<and>
        (\<exists>evs. out w' = out w0 @ FoundFiles (length (planned_keys (sys w0))) # evs \<and>
           visited_files evs = map file_name (planned_keys (sys w0)) \<and>
           attempted_files evs = map file_name (fetched_keys (new_calls w0 w'))) \<and>
        subseq (fetched_keys (new_calls w0 w')) (planned_keys (sys w0)) \<and>
        (\<forall>k \<in> set (planned_keys (sys w0)).
           file_name k \<notin> checkpoint_ids (checkpoint_file w0)
             \<longrightarrow> file_name k \<in> file_name ` set (fetched_keys (new_calls w0 w')))"
    and fsub: "set (fetched_keys (new_calls w0 w')) \<subseteq> set (planned_keys (sys w0))"
    by blast+
  have beyond: "\<forall>key rep. key \<notin> set (take 1000 (filter (prefix source_prefix) (source (sys w0))))
        \<longrightarrow> (GetObject, key, rep) \<notin> set (new_calls w0 w')"
  proof (intro allI impI notI)
    fix key rep
    assume k: "key \<notin> set (take 1000 (filter (prefix source_prefix) (source (sys w0))))"
      and g: "(GetObject, key, rep) \<in> set (new_calls w0 w')"
    from g have "key \<in> set (fetched_keys (new_calls w0 w'))" by (rule fetched_keys_member)
    with fsub sub k show False by blast
  qed
  from pk parts beyond
  show "planned_keys (sys w0)
       = filter (\<lambda>key. endswith key ''.grib2'')
           (take 1000 (filter (prefix source_prefix) (source (sys w0)))) \<and>
     listings (new_calls w0 w')
       = (if checkpoint_file w0 = Garbled then []
          else [(ListObjects, source_prefix, replies (sys w0) (clock (sys w0)))]) \<and>
     (r = None) = (checkpoint_file w0 \<noteq> Garbled \<and> replies (sys w0) (clock (sys w0)) = Done) \<and>
     (checkpoint_file w0 = Garbled \<longrightarrow> new_calls w0 w' = []) \<and>
     (r \<noteq> None \<longrightarrow> fetched_keys (new_calls w0 w') = [] \<and> out w' = out w0) \<and>
     (r = None \<longrightarrow>
        take 1 (new_calls w0 w') = [(ListObjects, source_prefix, Done)] \<and>
        (\<exists>evs. out w' = out w0 @ FoundFiles (length (planned_keys (sys w0))) # evs \<and>
           visited_files evs = map file_name (planned_keys (sys w0)) \<and>
           attempted_files evs = map file_name (fetched_keys (new_calls w0 w'))) \<and>
        subseq (fetched_keys (new_calls w0 w')) (planned_keys (sys w0)) \<and>
        (\<forall>k \<in> set (planned_keys (sys w0)).
           file_name k \<notin> checkpoint_ids (checkpoint_file w0)
             \<longrightarrow> file_name k \<in> file_name ` set (fetched_keys (new_calls w0 w')))) \<and>
     (\<forall>key rep. key \<notin> set (take 1000 (filter (prefix source_prefix) (source (sys w0))))
        \<longrightarrow> (GetObject, key, rep) \<notin> set (new_calls w0 w'))"
    by (intro conjI)
qed

lemma numbered_key_inj: "numbered_key i = numbered_key j \<Longrightarrow> i = j"
proof -
  assume "numbered_key i = numbered_key j"
  then have "replicate i CHR ''x'' = replicate j CHR ''x''"
    by (simp add: numbered_key_def)
  then have "length (replicate i CHR ''x'') = length (replicate j CHR ''x'')" by simp
  then show "i = j" by simp
qed

lemma crowded_first_page:
  "take 1000 (filter (prefix source_prefix) crowded_bucket) = map numbered_key [0..<1000]"
proof -
  have all: "filter (prefix source_prefix) (map numbered_key xs) = map numbered_key xs" for xs
    by (induction xs) (simp_all add: numbered_key_def)
  have "take 1000 (map numbered_key [0..<1001]) = map numbered_key [0..<1000]"
    by (simp add: take_map del: upt_Suc)
  then show ?thesis
    by (simp add: crowded_bucket_def all del: upt_Suc)
qed

lemma numbered_key_grib2: "endswith (numbered_key i) ''.grib2''"
  by (simp add: numbered_key_def endswith_def source_prefix_def)

lemma crowded_planned:
  "filter (\<lambda>key. endswith key ''.grib2'') (map numbered_key xs) = map numbered_key xs"
  by (induction xs) (simp_all add: numbered_key_grib2)

theorem noaa_plans_first_page_only_witness:
  "numbered_key 1000 \<in> set crowded_bucket \<and> prefix source_prefix (numbered_key 1000) \<and>
   endswith (numbered_key 1000) ''.grib2'' \<and>
   fst (noaa_main (fresh_noaa (\<lambda>n. Done) crowded_bucket)) = None \<and>
   listings (calls (sys (snd (noaa_main (fresh_noaa (\<lambda>n. Done) crowded_bucket)))))
     = [(ListObjects, source_prefix, Done)] \<and>
   take 1 (out (snd (noaa_main (fresh_noaa (\<lambda>n. Done) crowded_bucket)))) = [FoundFiles 1000] \<and>
   (\<forall>rep. (GetObject, numbered_key 1000, rep)
      \<notin> set (calls (sys (snd (noaa_main (fresh_noaa (\<lambda>n. Done) crowded_bucket))))))"
proof -
  let ?w0 = "fresh_noaa (\<lambda>n. Done) crowded_bucket"
  let ?w' = "snd (noaa_main ?w0)"
  have h: "noaa_main ?w0 = (fst (noaa_main ?w0), ?w')" by simp
  have s0: "source (sys ?w0) = crowded_bucket" "calls (sys ?w0) = []" "out ?w0 = []"
    "checkpoint_file ?w0 \<noteq> Garbled" "replies (sys ?w0) (clock (sys ?w0)) = Done"
    by (simp_all add: fresh_noaa_def fresh_system_def)
  have nc: "new_calls ?w0 ?w' = calls (sys ?w')" by (simp add: new_calls_def s0(2))
  have out: "numbered_key 1000 \<notin> set (take 1000 (filter (prefix source_prefix) (source (sys ?w0))))"
  proof
    assume "numbered_key 1000 \<in> set (take 1000 (filter (prefix source_prefix) (source (sys ?w0))))"
    then obtain x where x: "x < 1000" "numbered_key 1000 = numbered_key x"
      unfolding s0(1) crowded_first_page by auto
    from x(2) have "1000 = x" by (rule numbered_key_inj)
    with x(1) show False by simp
  qed
  note inst = noaa_plans_first_page_only [of ?w0 "fst (noaa_main ?w0)" ?w']
  from inst h have pk: "planned_keys (sys ?w0) = map numbered_key [0..<1000]"
    unfolding s0(1) crowded_first_page crowded_planned by blast
  from inst h s0(4,5) have ok: "fst (noaa_main ?w0) = None" by blast
  from inst h s0(4,5) have ls: "listings (calls (sys ?w')) = [(ListObjects, source_prefix, Done)]"
    unfolding nc by simp
  from inst h ok obtain evs where
    "out ?w' = out ?w0 @ FoundFiles (length (planned_keys (sys ?w0))) # evs" by blast
  then have found: "take 1 (out ?w') = [FoundFiles 1000]" by (simp add: pk s0(3))
  from inst h out have never: "\<forall>rep. (GetObject, numbered_key 1000, rep) \<notin> set (calls (sys ?w'))"
    unfolding nc by blast
  have "numbered_key 1000 \<in> set crowded_bucket"
    by (simp add: crowded_bucket_def del: upt_Suc)
  moreover have "prefix source_prefix (numbered_key 1000)"
    by (simp add: numbered_key_def)
  ultimately show ?thesis using numbered_key_grib2 ok ls found never by blast
qed

end
